theory Spec2Isabelle
  imports Complex_Main "HOL-Library.Log_Nat"
begin

section \<open>Double-precision values\<close>

text \<open>
  The C type \<open>double\<close> is IEEE 754 binary64. A value is a NaN, an infinity, or a finite
  number, which is kept as the rational it denotes. The two zeros are identified: the
  program never divides by a double that can be a negative zero (every divisor is a
  converted \<open>size_t\<close>), and \<open>==\<close> does not tell them apart.
  Every arithmetic operation computes the exact rational result and rounds it with
  \<open>rnd\<close>: to nearest, ties to even, 53 significant bits, exponents from \<open>-1022\<close> to
  \<open>1023\<close>, gradual underflow below, overflow to an infinity above.
\<close>

datatype double = NaN | PInf | NInf | Fin rat

definition round_even :: "rat \<Rightarrow> int" where
  "round_even x =
     (let f = \<lfloor>x\<rfloor>; d = x - of_int f
      in if d < 1 / 2 then f else if 1 / 2 < d then f + 1 else if even f then f else f + 1)"

text \<open>For \<open>0 < a\<close>, the exponent \<open>e\<close> with \<open>2 powi e \<le> a < 2 powi (e + 1)\<close>.\<close>

definition floor_log2 :: "rat \<Rightarrow> int" where
  "floor_log2 a =
     (let k = bitlen (fst (quotient_of a)) - bitlen (snd (quotient_of a))
      in if 2 powi k \<le> a then k else k - 1)"

definition rnd :: "rat \<Rightarrow> double" where
  "rnd q =
     (if q = 0 then Fin 0
      else let a = \<bar>q\<bar>;
               e = max (floor_log2 a) (- 1022);
               u = 2 powi (e - 52);
               r = of_int (round_even (a / u)) * u
           in if 2 powi 1024 \<le> r then (if 0 < q then PInf else NInf)
              else Fin (if 0 < q then r else - r))"

text \<open>A finite value is a double when rounding leaves it alone.\<close>

fun is_double :: "double \<Rightarrow> bool" where
  "is_double (Fin q) = (rnd q = Fin q)"
| "is_double x = True"

fun is_finite :: "double \<Rightarrow> bool" where
  "is_finite (Fin q) = True"
| "is_finite x = False"

fun dadd :: "double \<Rightarrow> double \<Rightarrow> double" where
  "dadd (Fin x) (Fin y) = rnd (x + y)"
| "dadd NaN b = NaN"
| "dadd a NaN = NaN"
| "dadd PInf NInf = NaN"
| "dadd NInf PInf = NaN"
| "dadd PInf b = PInf"
| "dadd NInf b = NInf"
| "dadd a PInf = PInf"
| "dadd a NInf = NInf"

fun dsub :: "double \<Rightarrow> double \<Rightarrow> double" where
  "dsub (Fin x) (Fin y) = rnd (x - y)"
| "dsub NaN b = NaN"
| "dsub a NaN = NaN"
| "dsub PInf PInf = NaN"
| "dsub NInf NInf = NaN"
| "dsub PInf b = PInf"
| "dsub NInf b = NInf"
| "dsub a PInf = NInf"
| "dsub a NInf = PInf"

fun dmul :: "double \<Rightarrow> double \<Rightarrow> double" where
  "dmul (Fin x) (Fin y) = rnd (x * y)"
| "dmul NaN b = NaN"
| "dmul a NaN = NaN"
| "dmul PInf PInf = PInf"
| "dmul PInf NInf = NInf"
| "dmul NInf PInf = NInf"
| "dmul NInf NInf = PInf"
| "dmul PInf (Fin y) = (if y = 0 then NaN else if 0 < y then PInf else NInf)"
| "dmul NInf (Fin y) = (if y = 0 then NaN else if 0 < y then NInf else PInf)"
| "dmul (Fin x) PInf = (if x = 0 then NaN else if 0 < x then PInf else NInf)"
| "dmul (Fin x) NInf = (if x = 0 then NaN else if 0 < x then NInf else PInf)"

text \<open>Division; a zero divisor is the positive zero of a converted count.\<close>

fun ddiv :: "double \<Rightarrow> double \<Rightarrow> double" where
  "ddiv (Fin x) (Fin y) =
     (if y = 0 then (if x = 0 then NaN else if 0 < x then PInf else NInf)
      else rnd (x / y))"
| "ddiv NaN b = NaN"
| "ddiv a NaN = NaN"
| "ddiv PInf (Fin y) = (if 0 \<le> y then PInf else NInf)"
| "ddiv NInf (Fin y) = (if 0 \<le> y then NInf else PInf)"
| "ddiv (Fin x) b = Fin 0"
| "ddiv a b = NaN"


fun dle :: "double \<Rightarrow> double \<Rightarrow> bool" where
  "dle NaN b = False"
| "dle a NaN = False"
| "dle NInf b = True"
| "dle a PInf = True"
| "dle PInf b = False"
| "dle a NInf = False"
| "dle (Fin x) (Fin y) = (x \<le> y)"

definition isnan :: "double \<Rightarrow> bool" where
  "isnan x = (x = NaN)"

text \<open>Conversion of a \<open>size_t\<close> and of SQLite's 64-bit integer to \<open>double\<close>.\<close>

definition double_of_size :: "nat \<Rightarrow> double" where
  "double_of_size n = rnd (of_nat n)"

definition double_of_int64 :: "int \<Rightarrow> double" where
  "double_of_int64 i = rnd (of_int i)"

section \<open>The aggregate state\<close>

text \<open>
  \<open>WindowStatsData\<close>, field by field. \<open>values\<close> is a pointer: \<open>None\<close> is \<open>NULL\<close>,
  \<open>Some xs\<close> a block of \<open>length xs\<close> doubles. The fields \<open>values\<close> and \<open>sum\<close> are
  named \<open>values_buf\<close> and \<open>sum_val\<close> here. A \<open>size_t\<close> is a natural number below
  \<open>2 ^ 64\<close>, and every \<open>size_t\<close> operation of the program is reduced modulo \<open>2 ^ 64\<close>.
\<close>

record WindowStatsData =
  values_buf :: "double list option"
  count :: nat
  capacity :: nat
  head :: nat
  tail :: nat
  sum_val :: double
  sum_sq :: double

definition INITIAL_CAPACITY :: nat where "INITIAL_CAPACITY = 100"
definition CAPACITY_GROWTH_FACTOR :: nat where "CAPACITY_GROWTH_FACTOR = 2"
definition MIN_COUNT_POPULATION :: nat where "MIN_COUNT_POPULATION = 1"
definition MIN_COUNT_SAMPLE :: nat where "MIN_COUNT_SAMPLE = 2"

definition SIZE_MOD :: nat where "SIZE_MOD = 2 ^ 64"
definition SIZEOF_DOUBLE :: nat where "SIZEOF_DOUBLE = 8"

section \<open>Core calculation logic\<close>

definition calculate_variance_sample :: "WindowStatsData \<Rightarrow> double" where
  "calculate_variance_sample d =
     (if count d < MIN_COUNT_SAMPLE then NaN
      else let mean = ddiv (sum_val d) (double_of_size (count d));
               variance_pop = dsub (ddiv (sum_sq d) (double_of_size (count d))) (dmul mean mean)
           in dmul variance_pop
                (ddiv (double_of_size (count d)) (double_of_size (count d - 1))))"

definition calculate_variance_population :: "WindowStatsData \<Rightarrow> double" where
  "calculate_variance_population d =
     (if count d < MIN_COUNT_POPULATION then NaN
      else let mean = ddiv (sum_val d) (double_of_size (count d))
           in dsub (ddiv (sum_sq d) (double_of_size (count d))) (dmul mean mean))"

section \<open>The allocator\<close>

text \<open>
  \<open>malloc\<close> is the environment's: each call either fails or returns a block of the
  requested size with arbitrary contents. Which of the two happens, and the contents, are
  inputs of the model. No block is larger than \<open>PTRDIFF_MAX\<close> bytes, so a larger request
  fails.
\<close>

datatype alloc = Alloc_fails | Alloc_gives "nat \<Rightarrow> double"

definition PTRDIFF_MAX :: nat where "PTRDIFF_MAX = 2 ^ 63 - 1"

definition malloc :: "alloc \<Rightarrow> nat \<Rightarrow> double list option" where
  "malloc a nbytes =
     (case a of
        Alloc_fails \<Rightarrow> None
      | Alloc_gives g \<Rightarrow>
          if PTRDIFF_MAX < nbytes then None else Some (map g [0..<nbytes div SIZEOF_DOUBLE]))"

datatype rc = SQLITE_OK | SQLITE_NOMEM

section \<open>Helper functions\<close>

text \<open>
  A helper that reads or writes outside its block, through \<open>NULL\<close>, or takes a remainder
  by zero has undefined behaviour: it returns \<open>None\<close>.
\<close>

definition get_circular_value :: "WindowStatsData \<Rightarrow> nat \<Rightarrow> double option" where
  "get_circular_value d logical_index =
     (case values_buf d of
        None \<Rightarrow> None
      | Some xs \<Rightarrow>
          if capacity d = 0 then None
          else let physical_index = ((head d + logical_index) mod SIZE_MOD) mod capacity d
               in if physical_index < length xs then Some (xs ! physical_index) else None)"

definition add_to_circular_buffer :: "WindowStatsData \<Rightarrow> double \<Rightarrow> WindowStatsData option" where
  "add_to_circular_buffer d v =
     (case values_buf d of
        None \<Rightarrow> None
      | Some xs \<Rightarrow>
          if length xs \<le> tail d \<or> capacity d = 0 then None
          else Some (d\<lparr>values_buf := Some (xs[tail d := v]),
                        tail := ((tail d + 1) mod SIZE_MOD) mod capacity d,
                        count := (count d + 1) mod SIZE_MOD\<rparr>))"

definition remove_from_circular_buffer ::
    "WindowStatsData \<Rightarrow> (double \<times> WindowStatsData) option" where
  "remove_from_circular_buffer d =
     (if count d = 0 then Some (Fin 0, d)
      else case values_buf d of
        None \<Rightarrow> None
      | Some xs \<Rightarrow>
          if length xs \<le> head d \<or> capacity d = 0 then None
          else Some (xs ! head d,
                     d\<lparr>head := ((head d + 1) mod SIZE_MOD) mod capacity d,
                       count := count d - 1\<rparr>))"

definition init_window_stats_data :: "alloc \<Rightarrow> WindowStatsData \<Rightarrow> rc \<times> WindowStatsData" where
  "init_window_stats_data a d =
     (let d1 = d\<lparr>capacity := INITIAL_CAPACITY\<rparr>
      in case malloc a ((capacity d1 * SIZEOF_DOUBLE) mod SIZE_MOD) of
           None \<Rightarrow> (SQLITE_NOMEM, d1\<lparr>values_buf := None\<rparr>)
         | Some block \<Rightarrow>
             (SQLITE_OK, d1\<lparr>values_buf := Some block, count := 0, head := 0, tail := 0,
                             sum_val := Fin 0, sum_sq := Fin 0\<rparr>))"

text \<open>The copy loop of \<open>grow_stats_buffer\<close>, from index \<open>i\<close> on.\<close>

function copy_values :: "WindowStatsData \<Rightarrow> double list \<Rightarrow> nat \<Rightarrow> double list option" where
  "copy_values d new_values i =
     (if i < count d then
        (case get_circular_value d i of
           None \<Rightarrow> None
         | Some v \<Rightarrow>
             if length new_values \<le> i then None
             else copy_values d (new_values[i := v]) (i + 1))
      else Some new_values)"
  by pat_completeness auto
termination
  by (relation "measure (\<lambda>(d, new_values, i). count d - i)") auto

definition grow_stats_buffer :: "alloc \<Rightarrow> WindowStatsData \<Rightarrow> (rc \<times> WindowStatsData) option" where
  "grow_stats_buffer a d =
     (let new_capacity = (capacity d * CAPACITY_GROWTH_FACTOR) mod SIZE_MOD
      in case malloc a ((new_capacity * SIZEOF_DOUBLE) mod SIZE_MOD) of
           None \<Rightarrow> Some (SQLITE_NOMEM, d)
         | Some block \<Rightarrow>
             (case copy_values d block 0 of
                None \<Rightarrow> None
              | Some new_values \<Rightarrow>
                  Some (SQLITE_OK, d\<lparr>values_buf := Some new_values, capacity := new_capacity,
                                       head := 0, tail := count d\<rparr>)))"

section \<open>SQLite callback functions\<close>

text \<open>
  An argument of a callback. \<open>sqlite3_value_double\<close> is called on integers and floats
  only; \<open>numeric_value\<close> is the type test together with that conversion.
\<close>

datatype sqlite_value =
  SqlNull | SqlInteger int | SqlFloat double | SqlText string | SqlBlob "nat list"

fun numeric_value :: "sqlite_value \<Rightarrow> double option" where
  "numeric_value (SqlInteger i) = Some (double_of_int64 i)"
| "numeric_value (SqlFloat x) = Some x"
| "numeric_value v = None"

text \<open>
  The aggregate context of one aggregation: absent until the first call of
  \<open>sqlite3_aggregate_context\<close> with a non-zero size, which allocates it zero-filled
  (or fails); every later call returns the same block.
\<close>

datatype agg_context = NoContext | Context WindowStatsData

definition zero_filled :: WindowStatsData where
  "zero_filled = \<lparr>values_buf = None, count = 0, capacity = 0, head = 0, tail = 0,
                   sum_val = Fin 0, sum_sq = Fin 0\<rparr>"

definition sqlite3_aggregate_context :: "bool \<Rightarrow> nat \<Rightarrow> agg_context \<Rightarrow> WindowStatsData option" where
  "sqlite3_aggregate_context can_allocate nBytes ctx =
     (case ctx of
        Context d \<Rightarrow> Some d
      | NoContext \<Rightarrow> if nBytes = 0 \<or> \<not> can_allocate then None else Some zero_filled)"

text \<open>What the environment decides during one call of \<open>stats_step\<close>.\<close>

record step_env =
  context_alloc :: bool
  init_alloc :: alloc
  grow_alloc :: alloc

datatype result = Done | Error_msg string | Error_nomem | Undefined

definition stats_step :: "step_env \<Rightarrow> sqlite_value list \<Rightarrow> agg_context \<Rightarrow> result \<times> agg_context" where
  "stats_step env argv ctx =
     (if length argv \<noteq> 1
      then (Error_msg ''Statistics functions require exactly 1 argument'', ctx)
      else case sqlite3_aggregate_context (context_alloc env) 56 ctx of
        None \<Rightarrow> (Error_nomem, ctx)
      | Some d0 \<Rightarrow>
          let (rc1, d1) = (if values_buf d0 = None then init_window_stats_data (init_alloc env) d0
                           else (SQLITE_OK, d0))
          in if rc1 \<noteq> SQLITE_OK then (Error_nomem, Context d1)
             else if hd argv = SqlNull then (Done, Context d1)
             else case numeric_value (hd argv) of
               None \<Rightarrow> (Error_msg ''Invalid data type, expected numeric value.'', Context d1)
             | Some v \<Rightarrow>
                 (case (if capacity d1 \<le> count d1 then grow_stats_buffer (grow_alloc env) d1
                        else Some (SQLITE_OK, d1)) of
                    None \<Rightarrow> (Undefined, Context d1)
                  | Some (rc2, d2) \<Rightarrow>
                      if rc2 \<noteq> SQLITE_OK then (Error_nomem, Context d2)
                      else case add_to_circular_buffer d2 v of
                        None \<Rightarrow> (Undefined, Context d2)
                      | Some d3 \<Rightarrow>
                          (Done, Context (d3\<lparr>sum_val := dadd (sum_val d3) v,
                                               sum_sq := dadd (sum_sq d3) (dmul v v)\<rparr>))))"

definition stats_inverse :: "sqlite_value list \<Rightarrow> agg_context \<Rightarrow> result \<times> agg_context" where
  "stats_inverse argv ctx =
     (case sqlite3_aggregate_context False 0 ctx of
        None \<Rightarrow> (Done, ctx)
      | Some d \<Rightarrow>
          if values_buf d = None \<or> count d \<le> 0 then (Done, ctx)
          else case argv of
            [] \<Rightarrow> (Undefined, ctx)
          | v # rest \<Rightarrow>
              if v = SqlNull then (Done, ctx)
              else case remove_from_circular_buffer d of
                None \<Rightarrow> (Undefined, ctx)
              | Some (removed_value, d') \<Rightarrow>
                  (Done, Context (d'\<lparr>sum_val := dsub (sum_val d') removed_value,
                                       sum_sq := dsub (sum_sq d') (dmul removed_value removed_value)\<rparr>)))"

section \<open>Contracted evaluation\<close>

text \<open>
  A C compiler may contract a floating expression: it may evaluate \<open>c + a * b\<close> and
  \<open>c - a * b\<close> as one operation that rounds once, as a fused multiply-add instruction
  does. The source does not switch \<open>FP_CONTRACT\<close> off, so the statements
  \<open>ctx->sum_sq += value * value\<close> and \<open>ctx->sum_sq -= removed_value * removed_value\<close>
  and the expression \<open>(data->sum_sq / data->count) - (mean * mean)\<close> have two
  evaluations: the one of the definitions above, where the product is rounded before it
  is added or subtracted, and the contracted one below. A product with an infinite
  factor is exact either way.
\<close>

fun fused_add :: "double \<Rightarrow> double \<Rightarrow> double \<Rightarrow> double" where
  "fused_add (Fin z) (Fin x) (Fin y) = rnd (z + x * y)"
| "fused_add c (Fin x) (Fin y) = c"
| "fused_add c a b = dadd c (dmul a b)"

fun fused_sub :: "double \<Rightarrow> double \<Rightarrow> double \<Rightarrow> double" where
  "fused_sub (Fin z) (Fin x) (Fin y) = rnd (z - x * y)"
| "fused_sub c (Fin x) (Fin y) = c"
| "fused_sub c a b = dsub c (dmul a b)"

definition stats_step_contracted ::
    "step_env \<Rightarrow> sqlite_value list \<Rightarrow> agg_context \<Rightarrow> result \<times> agg_context" where
  "stats_step_contracted env argv ctx =
     (if length argv \<noteq> 1
      then (Error_msg ''Statistics functions require exactly 1 argument'', ctx)
      else case sqlite3_aggregate_context (context_alloc env) 56 ctx of
        None \<Rightarrow> (Error_nomem, ctx)
      | Some d0 \<Rightarrow>
          let (rc1, d1) = (if values_buf d0 = None then init_window_stats_data (init_alloc env) d0
                           else (SQLITE_OK, d0))
          in if rc1 \<noteq> SQLITE_OK then (Error_nomem, Context d1)
             else if hd argv = SqlNull then (Done, Context d1)
             else case numeric_value (hd argv) of
               None \<Rightarrow> (Error_msg ''Invalid data type, expected numeric value.'', Context d1)
             | Some v \<Rightarrow>
                 (case (if capacity d1 \<le> count d1 then grow_stats_buffer (grow_alloc env) d1
                        else Some (SQLITE_OK, d1)) of
                    None \<Rightarrow> (Undefined, Context d1)
                  | Some (rc2, d2) \<Rightarrow>
                      if rc2 \<noteq> SQLITE_OK then (Error_nomem, Context d2)
                      else case add_to_circular_buffer d2 v of
                        None \<Rightarrow> (Undefined, Context d2)
                      | Some d3 \<Rightarrow>
                          (Done, Context (d3\<lparr>sum_val := dadd (sum_val d3) v,
                                               sum_sq := fused_add (sum_sq d3) v v\<rparr>))))"

definition stats_inverse_contracted ::
    "sqlite_value list \<Rightarrow> agg_context \<Rightarrow> result \<times> agg_context" where
  "stats_inverse_contracted argv ctx =
     (case sqlite3_aggregate_context False 0 ctx of
        None \<Rightarrow> (Done, ctx)
      | Some d \<Rightarrow>
          if values_buf d = None \<or> count d \<le> 0 then (Done, ctx)
          else case argv of
            [] \<Rightarrow> (Undefined, ctx)
          | v # rest \<Rightarrow>
              if v = SqlNull then (Done, ctx)
              else case remove_from_circular_buffer d of
                None \<Rightarrow> (Undefined, ctx)
              | Some (removed_value, d') \<Rightarrow>
                  (Done, Context (d'\<lparr>sum_val := dsub (sum_val d') removed_value,
                                       sum_sq := fused_sub (sum_sq d') removed_value
                                                   removed_value\<rparr>)))"

definition calculate_variance_sample_contracted :: "WindowStatsData \<Rightarrow> double" where
  "calculate_variance_sample_contracted d =
     (if count d < MIN_COUNT_SAMPLE then NaN
      else let mean = ddiv (sum_val d) (double_of_size (count d));
               variance_pop = fused_sub (ddiv (sum_sq d) (double_of_size (count d))) mean mean
           in dmul variance_pop
                (ddiv (double_of_size (count d)) (double_of_size (count d - 1))))"

definition calculate_variance_population_contracted :: "WindowStatsData \<Rightarrow> double" where
  "calculate_variance_population_contracted d =
     (if count d < MIN_COUNT_POPULATION then NaN
      else let mean = ddiv (sum_val d) (double_of_size (count d))
           in fused_sub (ddiv (sum_sq d) (double_of_size (count d))) mean mean)"

section \<open>Runs of callbacks\<close>

datatype call = Step step_env "sqlite_value list" | Inverse "sqlite_value list"

fun call_result :: "call \<Rightarrow> agg_context \<Rightarrow> result \<times> agg_context" where
  "call_result (Step env argv) ctx = stats_step env argv ctx"
| "call_result (Inverse argv) ctx = stats_inverse argv ctx"

text \<open>A run stops, with \<open>None\<close>, at a call whose behaviour is undefined.\<close>

fun run :: "call list \<Rightarrow> agg_context \<Rightarrow> agg_context option" where
  "run [] ctx = Some ctx"
| "run (c # cs) ctx =
     (case call_result c ctx of
        (Undefined, ctx') \<Rightarrow> None
      | (r, ctx') \<Rightarrow> run cs ctx')"

text \<open>The same for the contracted evaluation of the callbacks.\<close>

fun call_result_contracted :: "call \<Rightarrow> agg_context \<Rightarrow> result \<times> agg_context" where
  "call_result_contracted (Step env argv) ctx = stats_step_contracted env argv ctx"
| "call_result_contracted (Inverse argv) ctx = stats_inverse_contracted argv ctx"

fun run_contracted :: "call list \<Rightarrow> agg_context \<Rightarrow> agg_context option" where
  "run_contracted [] ctx = Some ctx"
| "run_contracted (c # cs) ctx =
     (case call_result_contracted c ctx of
        (Undefined, ctx') \<Rightarrow> None
      | (r, ctx') \<Rightarrow> run_contracted cs ctx')"

section \<open>The statistics as the specification words them\<close>

text \<open>
  The specification's \<open>varianceSample\<close> and \<open>variancePopulation\<close>, as functions of
  \<open>sum\<close>, \<open>sumSquares\<close> and \<open>count\<close>, for comparison with the program's.
\<close>

definition spec_variance_population :: "double \<Rightarrow> double \<Rightarrow> nat \<Rightarrow> double" where
  "spec_variance_population s ss n =
     (if n < 1 then NaN
      else let mean = ddiv s (double_of_size n)
           in dsub (ddiv ss (double_of_size n)) (dmul mean mean))"

definition spec_variance_sample :: "double \<Rightarrow> double \<Rightarrow> nat \<Rightarrow> double" where
  "spec_variance_sample s ss n =
     (if n < 2 then NaN
      else let mean = ddiv s (double_of_size n);
               popVar = dsub (ddiv ss (double_of_size n)) (dmul mean mean)
           in dmul popVar (ddiv (double_of_size n) (double_of_size (n - 1))))"

section \<open>Notions used in the proofs\<close>

text \<open>Negation of a double, exact.\<close>

fun dneg :: "double \<Rightarrow> double" where
  "dneg NaN = NaN"
| "dneg PInf = NInf"
| "dneg NInf = PInf"
| "dneg (Fin q) = Fin (- q)"

text \<open>The largest finite double.\<close>

definition MAX_DOUBLE :: rat where
  "MAX_DOUBLE = (2 ^ 53 - 1) * 2 powi 971"

declare copy_values.simps [simp del]

text \<open>
  A block without a buffer, as SQLite hands it out zero-filled and as a failed
  \<open>init_window_stats_data\<close> leaves it (\<open>capacity\<close> apart).
\<close>

definition blank :: "WindowStatsData \<Rightarrow> bool" where
  "blank d = (values_buf d = None \<and> count d = 0 \<and> head d = 0 \<and> tail d = 0
              \<and> sum_val d = Fin 0 \<and> sum_sq d = Fin 0)"

text \<open>
  The invariant of a block between two callbacks. With a buffer: the buffer has
  \<open>capacity\<close> elements, it is a block that \<open>malloc\<close> can have returned, and \<open>count\<close>,
  \<open>head\<close> and \<open>tail\<close> describe a window of it. Without a buffer: the block is blank and
  its capacity is the one \<open>init_window_stats_data\<close> stored.
\<close>

definition buffer_inv :: "WindowStatsData \<Rightarrow> bool" where
  "buffer_inv d =
     (case values_buf d of
        None \<Rightarrow> blank d \<and> capacity d = INITIAL_CAPACITY
      | Some xs \<Rightarrow>
          length xs = capacity d \<and> 0 < capacity d
          \<and> capacity d * SIZEOF_DOUBLE \<le> PTRDIFF_MAX
          \<and> count d \<le> capacity d \<and> head d < capacity d
          \<and> tail d = (head d + count d) mod capacity d)"

text \<open>
  The live values, oldest first: logical index \<open>i\<close> is physical index
  \<open>(head + i) mod capacity\<close>, as in \<open>get_circular_value\<close>.
\<close>

definition live :: "WindowStatsData \<Rightarrow> double list" where
  "live d =
     (case values_buf d of
        None \<Rightarrow> []
      | Some xs \<Rightarrow> map (\<lambda>i. xs ! ((head d + i) mod capacity d)) [0..<count d])"

text \<open>The block after a growth into a block with contents \<open>g\<close>.\<close>

definition grown :: "(nat \<Rightarrow> double) \<Rightarrow> WindowStatsData \<Rightarrow> WindowStatsData" where
  "grown g d = d\<lparr>values_buf := Some (live d @ map g [count d..<capacity d * 2]),
                  capacity := capacity d * 2, head := 0, tail := count d\<rparr>"

text \<open>The block after \<open>add_to_circular_buffer\<close>, and after the removal of the oldest value.\<close>

definition added :: "double \<Rightarrow> double list \<Rightarrow> WindowStatsData \<Rightarrow> WindowStatsData" where
  "added v xs d = d\<lparr>values_buf := Some (xs[tail d := v]),
                     tail := (tail d + 1) mod capacity d, count := count d + 1\<rparr>"

definition removed :: "WindowStatsData \<Rightarrow> WindowStatsData" where
  "removed d = d\<lparr>head := (head d + 1) mod capacity d, count := count d - 1\<rparr>"

text \<open>The invariant of an aggregate context.\<close>

fun ctx_inv :: "agg_context \<Rightarrow> bool" where
  "ctx_inv NoContext = True"
| "ctx_inv (Context d) = buffer_inv d"

text \<open>The block a callback works on: zero-filled when it is handed out for the first time.\<close>

fun data_of :: "agg_context \<Rightarrow> WindowStatsData" where
  "data_of NoContext = zero_filled"
| "data_of (Context d) = d"

text \<open>
  Two blocks hold the same window: the same live values and running sums; and the same
  layout: the same window at the same place.
\<close>

definition same_window :: "WindowStatsData \<Rightarrow> WindowStatsData \<Rightarrow> bool" where
  "same_window d' d = (live d' = live d \<and> count d' = count d \<and> sum_val d' = sum_val d
                       \<and> sum_sq d' = sum_sq d)"

definition same_layout :: "WindowStatsData \<Rightarrow> WindowStatsData \<Rightarrow> bool" where
  "same_layout d' d = (same_window d' d \<and> head d' = head d \<and> tail d' = tail d)"

text \<open>The state after a successful insertion into a prepared block.\<close>

definition inserted :: "double \<Rightarrow> WindowStatsData \<Rightarrow> WindowStatsData" where
  "inserted v d = (added v (the (values_buf d)) d)
                    \<lparr>sum_val := dadd (sum_val d) v, sum_sq := dadd (sum_sq d) (dmul v v)\<rparr>"

text \<open>The state after \<open>stats_inverse\<close> removed the oldest value.\<close>

definition evicted :: "WindowStatsData \<Rightarrow> WindowStatsData" where
  "evicted d = (removed d)
     \<lparr>sum_val := dsub (sum_val d) (hd (live d)),
       sum_sq := dsub (sum_sq d) (dmul (hd (live d)) (hd (live d)))\<rparr>"

text \<open>An environment in which every allocation succeeds, with block contents \<open>g\<close>.\<close>

definition plentiful :: "(nat \<Rightarrow> double) \<Rightarrow> step_env" where
  "plentiful g = \<lparr>context_alloc = True, init_alloc = Alloc_gives g, grow_alloc = Alloc_gives g\<rparr>"

text \<open>In the examples a freshly allocated block holds NaN everywhere.\<close>

definition unset :: "nat \<Rightarrow> double" where
  "unset i = NaN"

text \<open>The double nearest to 0.1.\<close>

definition one_tenth :: double where
  "one_tenth = Fin (3602879701896397 / 36028797018963968)"

text \<open>An observation of the block that a run from a fresh aggregation leaves behind.\<close>

definition after_run :: "(WindowStatsData \<Rightarrow> 'a) \<Rightarrow> call list \<Rightarrow> 'a option" where
  "after_run f calls =
     (case run calls NoContext of
        Some (Context d) \<Rightarrow> Some (f d)
      | _ \<Rightarrow> None)"

text \<open>The same observation in the contracted evaluation.\<close>

definition after_run_contracted :: "(WindowStatsData \<Rightarrow> 'a) \<Rightarrow> call list \<Rightarrow> 'a option" where
  "after_run_contracted f calls =
     (case run_contracted calls NoContext of
        Some (Context d) \<Rightarrow> Some (f d)
      | _ \<Rightarrow> None)"

text \<open>The number a finite double denotes.\<close>

fun value_of :: "double \<Rightarrow> rat" where
  "value_of (Fin q) = q"
| "value_of x = 0"

text \<open>The true sum and sum of squares of a list of finite values.\<close>

definition exact_sum :: "double list \<Rightarrow> rat" where
  "exact_sum vs = sum_list (map value_of vs)"

definition exact_sum_squares :: "double list \<Rightarrow> rat" where
  "exact_sum_squares vs = sum_list (map (\<lambda>v. value_of v * value_of v) vs)"

text \<open>A rational number that is a double: rounding leaves it alone.\<close>

definition representable :: "rat \<Rightarrow> bool" where
  "representable q = (rnd q = Fin q)"

text \<open>
  A window on which the running sums are exact: its values are finite, and the square of
  each value, the sum of the values and the sum of their squares are doubles.
\<close>

definition exact_values :: "double list \<Rightarrow> bool" where
  "exact_values vs =
     (list_all is_finite vs
      \<and> list_all (\<lambda>v. representable (value_of v * value_of v)) vs
      \<and> representable (exact_sum vs) \<and> representable (exact_sum_squares vs))"

text \<open>The live values form such a window before and after every call of a run.\<close>

fun exact_throughout :: "call list \<Rightarrow> agg_context \<Rightarrow> bool" where
  "exact_throughout [] ctx = exact_values (live (data_of ctx))"
| "exact_throughout (c # cs) ctx =
     (exact_values (live (data_of ctx)) \<and> exact_throughout cs (snd (call_result c ctx)))"

text \<open>The running sums are the true sums of the live values.\<close>

definition exact_sums :: "agg_context \<Rightarrow> bool" where
  "exact_sums ctx =
     (sum_val (data_of ctx) = Fin (exact_sum (live (data_of ctx)))
      \<and> sum_sq (data_of ctx) = Fin (exact_sum_squares (live (data_of ctx))))"

text \<open>The values that \<open>n\<close> successive calls of \<open>remove_from_circular_buffer\<close> return.\<close>

fun evict_all :: "nat \<Rightarrow> WindowStatsData \<Rightarrow> double list option" where
  "evict_all 0 d = Some []"
| "evict_all (Suc n) d =
     (case remove_from_circular_buffer d of
        None \<Rightarrow> None
      | Some (v, d') \<Rightarrow>
          (case evict_all n d' of None \<Rightarrow> None | Some vs \<Rightarrow> Some (v # vs)))"

text \<open>The block that a successful \<open>init_window_stats_data\<close> makes of the zero-filled one.\<close>

definition initial :: "(nat \<Rightarrow> double) \<Rightarrow> WindowStatsData" where
  "initial g = zero_filled\<lparr>capacity := INITIAL_CAPACITY,
                            values_buf := Some (map g [0..<INITIAL_CAPACITY])\<rparr>"

text \<open>
  A context whose buffer, if it has one, is not larger than a run of insertions makes it:
  the initial capacity, or twice the count at the last growth.
\<close>

fun roomy :: "agg_context \<Rightarrow> bool" where
  "roomy NoContext = True"
| "roomy (Context d) = (buffer_inv d \<and> values_buf d \<noteq> None
                        \<and> capacity d \<le> max INITIAL_CAPACITY (2 * count d))"

text \<open>Every window that a run of insertions of \<open>vs\<close> passes through, from \<open>acc\<close>, is exact.\<close>

fun exact_prefixes :: "double list \<Rightarrow> double list \<Rightarrow> bool" where
  "exact_prefixes acc [] = exact_values acc"
| "exact_prefixes acc (x # xs) = (exact_values acc \<and> exact_prefixes (acc @ [x]) xs)"

section \<open>Lemmas\<close>

lemma p2_less_iff: "(2::rat) powi m < 2 powi n \<longleftrightarrow> m < n"
proof
  assume "(2::rat) powi m < 2 powi n"
  show "m < n"
  proof (rule ccontr)
    assume "\<not> m < n"
    then have "(2::rat) powi n \<le> 2 powi m" by (intro power_int_increasing) simp_all
    with \<open>(2::rat) powi m < 2 powi n\<close> show False by simp
  qed
next
  assume "m < n" then show "(2::rat) powi m < 2 powi n"
    by (intro power_int_strict_increasing) simp_all
qed

lemma p2_le_iff: "(2::rat) powi m \<le> 2 powi n \<longleftrightarrow> m \<le> n"
  using p2_less_iff [of n m] by (simp add: not_less [symmetric])

lemma p2_add: "(2::rat) powi (m + n) = 2 powi m * 2 powi n"
  by (rule power_int_add) simp

lemma p2_diff: "(2::rat) powi (m - n) = 2 powi m / 2 powi n"
  by (rule power_int_diff) simp

lemma p2_nat: "0 \<le> k \<Longrightarrow> (2::rat) powi k = of_int (2 ^ nat k)"
  by (simp add: power_int_def)

lemma bitlen_rat_bounds:
  assumes "0 < p"
  shows "(2::rat) powi (bitlen p - 1) \<le> of_int p" "of_int p < (2::rat) powi bitlen p"
proof -
  from bitlen_bounds [OF assms] have b: "2 ^ nat (bitlen p - 1) \<le> p" "p < 2 ^ nat (bitlen p)"
    by simp_all
  have ge: "1 \<le> bitlen p" using assms by (simp add: bitlen_alt_def)
  have "(2::rat) powi (bitlen p - 1) = of_int (2 ^ nat (bitlen p - 1))"
    using ge by (intro p2_nat) simp
  also have "\<dots> \<le> of_int p" using b(1) by (simp only: of_int_le_iff)
  finally show "(2::rat) powi (bitlen p - 1) \<le> of_int p" .
  have "(of_int p :: rat) < of_int (2 ^ nat (bitlen p))" using b(2) by (simp only: of_int_less_iff)
  also have "\<dots> = 2 powi bitlen p" using ge by (subst p2_nat) simp_all
  finally show "of_int p < (2::rat) powi bitlen p" .
qed

lemma floor_log2_bounds:
  assumes "0 < a"
  shows "2 powi floor_log2 a \<le> a" "a < 2 powi (floor_log2 a + 1)"
proof -
  obtain p d where pd: "quotient_of a = (p, d)" by (cases "quotient_of a")
  then have d: "0 < d" and a: "a = of_int p / of_int d"
    by (simp_all add: quotient_of_denom_pos quotient_of_div)
  then have p: "0 < p" using assms by (simp add: zero_less_divide_iff)
  define k where "k = bitlen p - bitlen d"
  note bp = bitlen_rat_bounds [OF p] and bd = bitlen_rat_bounds [OF d]
  have dpos: "(0::rat) < of_int d" using d by simp
  have "a < 2 powi bitlen p / 2 powi (bitlen d - 1)"
    unfolding a using bp(2) bd(1) dpos p
    by (intro frac_less) simp_all
  also have "\<dots> = 2 powi (k + 1)"
    by (simp add: k_def flip: p2_diff) (simp add: algebra_simps)
  finally have up: "a < 2 powi (k + 1)" .
  have "2 powi (bitlen p - 1) / 2 powi bitlen d < a"
    unfolding a using bp(1) bd(2) dpos p
    by (intro frac_less2) simp_all
  moreover have "2 powi (bitlen p - 1) / 2 powi bitlen d = (2::rat) powi (k - 1)"
    by (simp add: k_def flip: p2_diff) (simp add: algebra_simps)
  ultimately have lo: "2 powi (k - 1) < a" by simp
  have f: "floor_log2 a = (if 2 powi k \<le> a then k else k - 1)"
    by (simp add: floor_log2_def pd k_def Let_def)
  show "2 powi floor_log2 a \<le> a" using lo by (simp add: f)
  show "a < 2 powi (floor_log2 a + 1)" using up by (simp add: f not_le)
qed

lemma floor_log2_unique:
  assumes "2 powi e \<le> a" "a < 2 powi (e + 1)"
  shows "floor_log2 a = e"
proof -
  have "0 < (2::rat) powi e" by simp
  with assms(1) have pos: "0 < a" by linarith
  note b = floor_log2_bounds [OF pos]
  from b(1) assms(2) have "(2::rat) powi floor_log2 a < 2 powi (e + 1)" by linarith
  then have "floor_log2 a < e + 1" by (simp only: p2_less_iff)
  moreover from assms(1) b(2) have "(2::rat) powi e < 2 powi (floor_log2 a + 1)" by linarith
  then have "e < floor_log2 a + 1" by (simp only: p2_less_iff)
  ultimately show ?thesis by simp
qed

lemma round_even_of_int [simp]: "round_even (of_int n) = n"
  by (simp add: round_even_def)

lemma round_even_cases: "round_even x = \<lfloor>x\<rfloor> \<or> round_even x = \<lfloor>x\<rfloor> + 1"
  by (simp add: round_even_def Let_def)

lemma round_even_ge: "of_int N \<le> x \<Longrightarrow> N \<le> round_even x"
proof -
  assume "of_int N \<le> x"
  then have "N \<le> \<lfloor>x\<rfloor>" by (simp add: le_floor_iff)
  then show ?thesis using round_even_cases [of x] by auto
qed

lemma round_even_le:
  assumes "x \<le> of_int N"
  shows "round_even x \<le> N"
proof (cases "x = of_int N")
  case True
  then show ?thesis by simp
next
  case False
  with assms have "x < of_int N" by simp
  then have "\<lfloor>x\<rfloor> < N" by (simp add: floor_less_iff)
  then show ?thesis using round_even_cases [of x] by auto
qed

lemma round_evenI:
  assumes "\<bar>x - of_int n\<bar> < 1 / 2 \<or> (\<bar>x - of_int n\<bar> = 1 / 2 \<and> even n)"
  shows "round_even x = n"
proof -
  define f where "f = \<lfloor>x\<rfloor>"
  have fl: "of_int f \<le> x" "x < of_int f + 1"
    using floor_correct [of x] by (simp_all add: f_def)
  have d: "round_even x =
     (if x - of_int f < 1 / 2 then f else if 1 / 2 < x - of_int f then f + 1
      else if even f then f else f + 1)"
    by (simp add: round_even_def f_def Let_def)
  from assms show ?thesis
  proof
    assume a: "\<bar>x - of_int n\<bar> < 1 / 2"
    then have bnd: "of_int n - 1 / 2 < x" "x < of_int n + 1 / 2" by linarith+
    from bnd fl have "(of_int n :: rat) - 3 / 2 < of_int f" "(of_int f :: rat) < of_int n + 1 / 2"
      by linarith+
    then have "(of_int (n - 2) :: rat) < of_int f" "(of_int f :: rat) < of_int (n + 1)"
      by simp_all
    then have "n - 2 < f" "f < n + 1" by (simp_all only: of_int_less_iff)
    then consider "f = n" | "f = n - 1" by linarith
    then show ?thesis
    proof cases
      case 1
      then have "x - of_int f < 1 / 2" using bnd by simp
      then show ?thesis using 1 by (simp add: d)
    next
      case 2
      then have "1 / 2 < x - of_int f" using bnd by simp
      then show ?thesis using 2 by (simp add: d)
    qed
  next
    assume a: "\<bar>x - of_int n\<bar> = 1 / 2 \<and> even n"
    then consider "x - of_int n = 1 / 2" | "x - of_int n = - (1 / 2)"
      by linarith
    then show ?thesis
    proof cases
      case 1
      then have "of_int n \<le> x" "x < of_int n + 1" by linarith+
      then have "f = n" unfolding f_def by (intro floor_unique) simp_all
      then show ?thesis using 1 a unfolding d by simp
    next
      case 2
      then have "of_int (n - 1) \<le> x" "x < of_int (n - 1) + 1" by simp_all
      then have f: "f = n - 1" unfolding f_def by (intro floor_unique)
      have "x - of_int f = 1 / 2" using 2 by (simp add: f)
      then show ?thesis using a unfolding d by (simp add: f)
    qed
  qed
qed

lemma rnd_0 [simp]: "rnd 0 = Fin 0"
  by (simp add: rnd_def)

lemma rnd_pos:
  assumes "0 < q"
  shows "rnd q = (if (2::rat) powi 1024 \<le> of_int (round_even (q / 2 powi (max (floor_log2 q) (- 1022) - 52)))
                                     * 2 powi (max (floor_log2 q) (- 1022) - 52)
                  then PInf
                  else Fin (of_int (round_even (q / 2 powi (max (floor_log2 q) (- 1022) - 52)))
                            * 2 powi (max (floor_log2 q) (- 1022) - 52)))"
  using assms by (simp add: rnd_def Let_def)

lemma rnd_minus: "rnd (- q) = dneg (rnd q)"
proof -
  consider "q = 0" | "0 < q" | "q < 0" by linarith
  then show ?thesis
  proof cases
    case 1
    then show ?thesis by simp
  next
    case 2
    then show ?thesis by (simp add: rnd_def Let_def)
  next
    case 3
    then show ?thesis by (simp add: rnd_def Let_def)
  qed
qed

lemma rnd_pos_eval:
  assumes "2 powi e0 \<le> q" "q < 2 powi (e0 + 1)"
    and "round_even (q / 2 powi (max e0 (- 1022) - 52)) = n"
  shows "rnd q = (if (2::rat) powi 1024 \<le> of_int n * 2 powi (max e0 (- 1022) - 52) then PInf
                  else Fin (of_int n * 2 powi (max e0 (- 1022) - 52)))"
proof -
  have "0 < (2::rat) powi e0" by simp
  with assms(1) have pos: "0 < q" by linarith
  have "floor_log2 q = e0" using assms(1,2) by (rule floor_log2_unique)
  then show ?thesis using assms(3) by (simp add: rnd_pos [OF pos])
qed

lemma rnd_exact_pos:
  assumes q: "q = of_int m * 2 powi k" and m: "0 < m" "m < 2 ^ 53"
    and k: "- 1074 \<le> k" and fin: "q < 2 powi 1024"
  shows "rnd q = Fin q"
proof -
  let ?e = "max (floor_log2 q) (- 1022)"
  have pos: "0 < q" using m by (simp add: q)
  note b = floor_log2_bounds [OF pos]
  have "(of_int m :: rat) < of_int (2 ^ 53)" using m(2) by (simp only: of_int_less_iff)
  then have "of_int m < (2::rat) powi 53" by simp
  then have "of_int m * 2 powi k < (2::rat) powi 53 * 2 powi k"
    by (intro mult_strict_right_mono) simp_all
  then have "q < 2 powi (53 + k)" by (simp only: q p2_add)
  with b(1) have "(2::rat) powi floor_log2 q < 2 powi (53 + k)" by linarith
  then have "floor_log2 q < 53 + k" by (simp only: p2_less_iff)
  then have ek: "0 \<le> k - (?e - 52)" using k by simp
  have "q / 2 powi (?e - 52) = of_int m * (2 powi k / 2 powi (?e - 52))"
    by (simp only: q times_divide_eq_right)
  also have "2 powi k / 2 powi (?e - 52) = (2::rat) powi (k - (?e - 52))"
    by (simp only: p2_diff)
  also have "\<dots> = (of_int (2 ^ nat (k - (?e - 52))) :: rat)"
    using ek by (rule p2_nat)
  finally have i: "q / 2 powi (?e - 52) = of_int (m * 2 ^ nat (k - (?e - 52)))"
    by (simp only: of_int_mult)
  then have r: "round_even (q / 2 powi (?e - 52)) = m * 2 ^ nat (k - (?e - 52))"
    by (simp only: round_even_of_int)
  have "of_int (m * 2 ^ nat (k - (?e - 52))) * 2 powi (?e - 52)
        = q / 2 powi (?e - 52) * 2 powi (?e - 52)"
    by (simp only: i)
  also have "\<dots> = q" by simp
  finally have rq: "of_int (m * 2 ^ nat (k - (?e - 52))) * 2 powi (?e - 52) = q" .
  have "\<not> 2 powi 1024 \<le> q" using fin by simp
  then show ?thesis
    unfolding rnd_pos [OF pos] r rq by (simp only: if_False)
qed

lemma rnd_exact:
  assumes q: "q = of_int m * 2 powi k" and m: "\<bar>m\<bar> < 2 ^ 53"
    and k: "- 1074 \<le> k" and fin: "\<bar>q\<bar> < 2 powi 1024"
  shows "rnd q = Fin q"
proof -
  consider "m = 0" | "0 < m" | "m < 0" by linarith
  then show ?thesis
  proof cases
    case 1
    then show ?thesis by (simp add: q)
  next
    case 2
    then have "0 < q" by (simp add: q)
    then show ?thesis using rnd_exact_pos [OF q 2 _ k] m fin by simp
  next
    case 3
    then have neg: "q < 0" by (simp add: q mult_neg_pos)
    have "- q = of_int (- m) * 2 powi k" by (simp add: q)
    then have "rnd (- q) = Fin (- q)"
      using rnd_exact_pos [of "- q" "- m" k] 3 m k fin neg by simp
    then show ?thesis by (cases "rnd q") (simp_all add: rnd_minus)
  qed
qed

lemma rnd_of_int:
  assumes "\<bar>i\<bar> \<le> 2 ^ 53"
  shows "rnd (of_int i) = Fin (of_int i)"
proof (cases "\<bar>i\<bar> = 2 ^ 53")
  case True
  then consider "i = 2 ^ 53" | "i = - (2 ^ 53)" by linarith
  then show ?thesis
  proof cases
    case 1
    show ?thesis by (rule rnd_exact [of _ 1 53]) (simp_all add: 1)
  next
    case 2
    show ?thesis by (rule rnd_exact [of _ "- 1" 53]) (simp_all add: 2)
  qed
next
  case False
  with assms have lt: "\<bar>i\<bar> < 2 ^ 53" by simp
  have "\<bar>of_int i :: rat\<bar> < of_int (2 ^ 53)"
    using lt by (simp only: of_int_abs [symmetric] of_int_less_iff)
  also have "\<dots> < 2 powi 1024" by simp
  finally show ?thesis using lt by (intro rnd_exact [of _ i 0]) simp_all
qed

lemma rnd_numeral [simp]:
  "numeral w \<le> (9007199254740992::int) \<Longrightarrow> rnd (numeral w) = Fin (numeral w)"
  using rnd_of_int [of "numeral w"] by simp

lemma rnd_1 [simp]: "rnd 1 = Fin 1"
  using rnd_of_int [of 1] by simp

lemma rnd_neg_numeral [simp]:
  "numeral w \<le> (9007199254740992::int) \<Longrightarrow> rnd (- numeral w) = Fin (- numeral w)"
  using rnd_of_int [of "- numeral w"] by simp

lemma round_even_numeral [simp]: "round_even (numeral w) = numeral w"
  using round_even_of_int [of "numeral w"] by simp

lemma rnd_m1 [simp]: "rnd (- 1) = Fin (- 1)"
  using rnd_of_int [of "- 1"] by simp

lemma p2_mult_eq: "a + b = c \<Longrightarrow> (2::rat) powi a * 2 powi b = 2 powi c"
  using p2_add [of a b] by simp

lemma rnd_shape:
  assumes "0 < q"
  obtains n e where "e = max (floor_log2 q) (- 1022)" "0 \<le> n" "n \<le> 2 ^ 53"
    "floor_log2 q = e \<Longrightarrow> 2 ^ 52 \<le> n"
    "n = round_even (q / 2 powi (e - 52))"
    "rnd q = (if (2::rat) powi 1024 \<le> of_int n * 2 powi (e - 52) then PInf
              else Fin (of_int n * 2 powi (e - 52)))"
proof -
  define e where "e = max (floor_log2 q) (- 1022)"
  define u where "u = (2::rat) powi (e - 52)"
  define n where "n = round_even (q / u)"
  have upos: "0 < u" by (simp add: u_def)
  note b = floor_log2_bounds [OF assms]
  have "(2::rat) powi (floor_log2 q + 1) \<le> 2 powi (e + 1)"
    by (simp add: p2_le_iff e_def)
  with b(2) have "q < 2 powi (e + 1)" by linarith
  also have "(2::rat) powi (e + 1) = 2 powi 53 * u"
    unfolding u_def by (rule p2_mult_eq [symmetric]) simp
  finally have "q / u < 2 powi 53" using upos by (simp add: pos_divide_less_eq)
  then have "q / u \<le> of_int (2 ^ 53)" by simp
  then have n_le: "n \<le> 2 ^ 53" unfolding n_def by (rule round_even_le)
  have "(of_int 0 :: rat) \<le> q / u" using assms upos by simp
  then have n_ge: "0 \<le> n" unfolding n_def by (rule round_even_ge)
  have normal: "2 ^ 52 \<le> n" if "floor_log2 q = e"
  proof -
    have "(2::rat) powi 52 * u = 2 powi e" unfolding u_def by (rule p2_mult_eq) simp
    also have "\<dots> \<le> q" using b(1) that by simp
    finally have "2 powi 52 \<le> q / u" using upos by (simp add: pos_le_divide_eq)
    then have "of_int (2 ^ 52) \<le> q / u" by simp
    then show ?thesis unfolding n_def by (rule round_even_ge)
  qed
  have r: "rnd q = (if (2::rat) powi 1024 \<le> of_int n * 2 powi (e - 52) then PInf
              else Fin (of_int n * 2 powi (e - 52)))"
    unfolding rnd_pos [OF assms] n_def u_def e_def ..
  show thesis
    by (rule that [of e n]) (use e_def n_ge n_le normal r in \<open>simp_all add: n_def u_def\<close>)
qed

lemma rnd_not_nan_pos: "0 < q \<Longrightarrow> rnd q \<noteq> NaN"
  by (erule rnd_shape) (simp split: if_splits)

lemma rnd_not_nan [simp]: "rnd q \<noteq> NaN"
proof -
  consider "q = 0" | "0 < q" | "0 < - q" by linarith
  then show ?thesis
  proof cases
    case 3
    then have "rnd (- q) \<noteq> NaN" by (rule rnd_not_nan_pos)
    then show ?thesis by (cases "rnd q") (simp_all add: rnd_minus)
  qed (simp_all add: rnd_not_nan_pos)
qed

lemma rnd_nonneg:
  assumes "0 \<le> q"
  shows "rnd q = PInf \<or> (\<exists>r. rnd q = Fin r \<and> 0 \<le> r)"
proof (cases "q = 0")
  case True
  then show ?thesis by simp
next
  case False
  with assms have "0 < q" by simp
  then show ?thesis
    by (rule rnd_shape) (simp split: if_splits)
qed

lemma rnd_lower:
  assumes "2 powi e0 \<le> q" "- 1022 \<le> e0"
  shows "rnd q = PInf \<or> (\<exists>r. rnd q = Fin r \<and> 2 powi e0 \<le> r)"
proof -
  have "0 < (2::rat) powi e0" by simp
  with assms(1) have pos: "0 < q" by linarith
  note b = floor_log2_bounds [OF pos]
  from assms(1) b(2) have "(2::rat) powi e0 < 2 powi (floor_log2 q + 1)" by linarith
  then have le: "e0 \<le> floor_log2 q" by (simp add: p2_less_iff)
  from pos show ?thesis
  proof (rule rnd_shape)
    fix n e
    assume e: "e = max (floor_log2 q) (- 1022)" and n: "floor_log2 q = e \<Longrightarrow> 2 ^ 52 \<le> n"
      and r: "rnd q = (if (2::rat) powi 1024 \<le> of_int n * 2 powi (e - 52) then PInf
              else Fin (of_int n * 2 powi (e - 52)))"
    have fe: "floor_log2 q = e" using le assms(2) by (simp add: e)
    then have "(of_int (2 ^ 52) :: rat) \<le> of_int n" using n by (simp only: of_int_le_iff)
    then have "(2::rat) powi 52 * 2 powi (e - 52) \<le> of_int n * 2 powi (e - 52)"
      by (intro mult_right_mono) simp_all
    moreover have "(2::rat) powi 52 * 2 powi (e - 52) = 2 powi e"
      by (rule p2_mult_eq) simp
    moreover have "(2::rat) powi e0 \<le> 2 powi e" using le fe by (simp add: p2_le_iff)
    ultimately have "2 powi e0 \<le> of_int n * (2::rat) powi (e - 52)" by linarith
    then show ?thesis by (simp add: r)
  qed
qed

lemma rnd_positive:
  assumes "2 powi (- 1074) \<le> q"
  shows "rnd q = PInf \<or> (\<exists>r. rnd q = Fin r \<and> 0 < r)"
proof -
  have "0 < (2::rat) powi (- 1074)" by (rule zero_less_power_int) simp
  with assms have pos: "0 < q" by linarith
  from pos show ?thesis
  proof (rule rnd_shape)
    fix n e
    assume e: "e = max (floor_log2 q) (- 1022)"
      and n: "n = round_even (q / 2 powi (e - 52))"
      and r: "rnd q = (if (2::rat) powi 1024 \<le> of_int n * 2 powi (e - 52) then PInf
              else Fin (of_int n * 2 powi (e - 52)))"
    have "1 \<le> q / 2 powi (e - 52)"
    proof (cases "floor_log2 q = e")
      case True
      have "(2::rat) powi (e - 52) \<le> 2 powi e" by (simp add: p2_le_iff)
      also have "\<dots> \<le> q" using floor_log2_bounds(1) [OF pos] True by simp
      finally show ?thesis by (simp add: pos_le_divide_eq)
    next
      case False
      then have "e = - 1022" using e by (simp add: max_def split: if_splits)
      then show ?thesis using assms by (simp add: pos_le_divide_eq)
    qed
    then have "of_int 1 \<le> q / 2 powi (e - 52)" by simp
    then have "1 \<le> n" unfolding n by (rule round_even_ge)
    then have "0 < of_int n * (2::rat) powi (e - 52)" by simp
    then show ?thesis by (simp add: r)
  qed
qed

lemma p2_mono: "m \<le> n \<Longrightarrow> (2::rat) powi m \<le> 2 powi n"
  by (simp only: p2_le_iff)

lemma p2_strict_mono: "m < n \<Longrightarrow> (2::rat) powi m < 2 powi n"
  by (simp only: p2_less_iff)

lemma rnd_pos_sign:
  assumes "0 < q" "rnd q = Fin r"
  shows "0 \<le> r"
  using rnd_nonneg [of q] assms by auto

lemma rnd_repr_pos:
  assumes "0 < q" "rnd q = Fin r"
  obtains m k where "r = of_int m * 2 powi k" "0 \<le> m" "m < 2 ^ 53" "- 1074 \<le> k"
    "r < 2 powi 1024"
  using assms(1)
proof (rule rnd_shape)
  fix n e
  assume e: "e = max (floor_log2 q) (- 1022)" and n: "0 \<le> n" "n \<le> 2 ^ 53"
    and r: "rnd q = (if (2::rat) powi 1024 \<le> of_int n * 2 powi (e - 52) then PInf
              else Fin (of_int n * 2 powi (e - 52)))"
  from r assms(2) have nov: "\<not> (2::rat) powi 1024 \<le> of_int n * 2 powi (e - 52)"
    and rv: "r = of_int n * 2 powi (e - 52)"
    by (auto split: if_splits)
  have ke: "- 1074 \<le> e - 52" by (simp add: e)
  show thesis
  proof (cases "n = 2 ^ 53")
    case False
    with n have "n < 2 ^ 53" by simp
    then show ?thesis using that [of n "e - 52"] rv n(1) ke nov by simp
  next
    case True
    have a: "(2::rat) powi 53 * 2 powi (e - 52) = 2 powi (e + 1)" by (rule p2_mult_eq) simp
    have b: "(2::rat) powi 52 * 2 powi (e - 51) = 2 powi (e + 1)" by (rule p2_mult_eq) simp
    have "r = 2 powi 53 * 2 powi (e - 52)" by (simp add: rv True)
    also note a
    also note b [symmetric]
    finally have "r = of_int (2 ^ 52) * 2 powi (e - 51)" by simp
    then show ?thesis using that [of "2 ^ 52" "e - 51"] ke nov rv by simp
  qed
qed

lemma rnd_idem:
  assumes "rnd q = Fin r"
  shows "rnd r = Fin r"
proof -
  consider "q = 0" | "0 < q" | "0 < - q" by linarith
  then show ?thesis
  proof cases
    case 1
    then show ?thesis using assms by simp
  next
    case 2
    from 2 assms show ?thesis
    proof (rule rnd_repr_pos)
      fix m k
      assume "r = of_int m * 2 powi k" "0 \<le> m" "m < 2 ^ 53" "- 1074 \<le> k" "r < 2 powi 1024"
      moreover have "0 \<le> r" using 2 assms by (rule rnd_pos_sign)
      ultimately show ?thesis by (intro rnd_exact [of r m k]) simp_all
    qed
  next
    case 3
    have m: "rnd (- q) = Fin (- r)" using assms by (simp add: rnd_minus)
    from 3 m have "rnd (- r) = Fin (- r)"
    proof (rule rnd_repr_pos)
      fix m k
      assume "- r = of_int m * 2 powi k" "0 \<le> m" "m < 2 ^ 53" "- 1074 \<le> k" "- r < 2 powi 1024"
      moreover have "0 \<le> - r" using 3 m by (rule rnd_pos_sign)
      ultimately show ?thesis by (intro rnd_exact [of "- r" m k]) simp_all
    qed
    then have "rnd (- (- r)) = dneg (Fin (- r))" by (simp only: rnd_minus)
    then show ?thesis by simp
  qed
qed

lemma is_double_rnd [simp]: "is_double (rnd q)"
  by (cases "rnd q") (simp_all add: rnd_idem)

lemma MAX_DOUBLE_less: "MAX_DOUBLE < 2 powi 1024"
proof -
  have "((2::rat) ^ 53 - 1) * 2 powi 971 < 2 ^ 53 * 2 powi 971"
    by (intro mult_strict_right_mono) simp_all
  also have "\<dots> = 2 powi 53 * 2 powi 971" by simp
  also have "\<dots> = 2 powi 1024" by (rule p2_mult_eq) simp
  finally show ?thesis by (simp only: MAX_DOUBLE_def)
qed

lemma MAX_DOUBLE_ge: "2 powi 1023 \<le> MAX_DOUBLE"
proof -
  have "(2::rat) powi 1023 = 2 powi 52 * 2 powi 971" by (rule p2_mult_eq [symmetric]) simp
  also have "\<dots> \<le> (2 ^ 53 - 1) * 2 powi 971" by (intro mult_right_mono) simp_all
  finally show ?thesis by (simp only: MAX_DOUBLE_def)
qed

lemma below_p53:
  fixes n :: int
  assumes "of_int n * u < (2::rat) powi 53 * u" "0 < u"
  shows "of_int n * u \<le> (2 ^ 53 - 1) * u"
proof -
  from assms have "(of_int n :: rat) < 2 powi 53" by simp
  then have "(of_int n :: rat) < of_int (2 ^ 53)" by simp
  then have "n < 2 ^ 53" by (simp only: of_int_less_iff)
  then have "n \<le> 2 ^ 53 - 1" by simp
  then have "(of_int n :: rat) \<le> of_int (2 ^ 53 - 1)" by (simp only: of_int_le_iff)
  then have "(of_int n :: rat) \<le> 2 ^ 53 - 1" by simp
  then show ?thesis using assms(2) by (intro mult_right_mono) simp_all
qed

lemma upto_p53:
  fixes n :: int
  assumes "n \<le> 2 ^ 53" "e \<le> 1022"
  shows "of_int n * (2::rat) powi (e - 52) \<le> 2 powi 1023"
proof -
  have "(of_int n :: rat) \<le> of_int (2 ^ 53)" using assms(1) by (simp only: of_int_le_iff)
  then have "(of_int n :: rat) \<le> 2 powi 53" by simp
  then have "of_int n * (2::rat) powi (e - 52) \<le> 2 powi 53 * 2 powi (e - 52)"
    by (intro mult_right_mono) simp_all
  also have "\<dots> = 2 powi (e + 1)" by (rule p2_mult_eq) simp
  also have "\<dots> \<le> 2 powi 1023" using assms(2) by (intro p2_mono) simp
  finally show ?thesis .
qed

lemma double_le_max_pos:
  assumes "0 < q" "rnd q = Fin r"
  shows "r \<le> MAX_DOUBLE"
  using assms(1)
proof (rule rnd_shape)
  fix n e
  assume e: "e = max (floor_log2 q) (- 1022)" and n: "n \<le> 2 ^ 53"
    and nn: "floor_log2 q = e \<Longrightarrow> 2 ^ 52 \<le> n"
    and r: "rnd q = (if (2::rat) powi 1024 \<le> of_int n * 2 powi (e - 52) then PInf
              else Fin (of_int n * 2 powi (e - 52)))"
  from r assms(2) have nov: "of_int n * 2 powi (e - 52) < (2::rat) powi 1024"
    and rv: "r = of_int n * 2 powi (e - 52)"
    by (auto split: if_splits)
  consider "e \<le> 1022" | "e = 1023" | "1024 \<le> e" by linarith
  then show ?thesis
  proof cases
    case 1
    then show ?thesis using upto_p53 [OF n 1] MAX_DOUBLE_ge by (simp add: rv)
  next
    case 2
    have "(2::rat) powi 1024 = 2 powi 53 * 2 powi 971" by (rule p2_mult_eq [symmetric]) simp
    with nov 2 have "of_int n * 2 powi 971 < (2::rat) powi 53 * 2 powi 971" by simp
    then have "of_int n * 2 powi 971 \<le> (2 ^ 53 - 1) * (2::rat) powi 971"
      by (rule below_p53) simp
    then show ?thesis by (simp add: rv 2 MAX_DOUBLE_def)
  next
    case 3
    then have "floor_log2 q = e" by (simp add: e max_def split: if_splits)
    then have "(of_int (2 ^ 52) :: rat) \<le> of_int n" using nn by (simp only: of_int_le_iff)
    then have "(2::rat) powi 52 * 2 powi (e - 52) \<le> of_int n * 2 powi (e - 52)"
      by (intro mult_right_mono) simp_all
    moreover have "(2::rat) powi 52 * 2 powi (e - 52) = 2 powi e" by (rule p2_mult_eq) simp
    moreover have "(2::rat) powi 1024 \<le> 2 powi e" using 3 by (intro p2_mono) simp
    ultimately show ?thesis using nov by linarith
  qed
qed

lemma double_le_max:
  assumes "rnd q = Fin r"
  shows "\<bar>r\<bar> \<le> MAX_DOUBLE"
proof -
  have mpos: "0 \<le> MAX_DOUBLE" using MAX_DOUBLE_ge zero_le_power_int [of "2::rat" 1023] by linarith
  consider "q = 0" | "0 < q" | "0 < - q" by linarith
  then show ?thesis
  proof cases
    case 1
    then show ?thesis using assms mpos by simp
  next
    case 2
    then show ?thesis using double_le_max_pos [OF 2 assms] rnd_pos_sign [OF 2 assms] by simp
  next
    case 3
    have m: "rnd (- q) = Fin (- r)" using assms by (simp add: rnd_minus)
    show ?thesis using double_le_max_pos [OF 3 m] rnd_pos_sign [OF 3 m] by simp
  qed
qed

lemma rnd_finite_pos:
  assumes "0 < q" "q \<le> MAX_DOUBLE"
  shows "is_finite (rnd q)"
  using assms(1)
proof (rule rnd_shape)
  fix n e
  assume e: "e = max (floor_log2 q) (- 1022)" and n: "n \<le> 2 ^ 53"
    and nd: "n = round_even (q / 2 powi (e - 52))"
    and r: "rnd q = (if (2::rat) powi 1024 \<le> of_int n * 2 powi (e - 52) then PInf
              else Fin (of_int n * 2 powi (e - 52)))"
  have "2 powi floor_log2 q \<le> q" using floor_log2_bounds(1) [OF assms(1)] .
  also have "q < 2 powi 1024" using assms(2) MAX_DOUBLE_less by linarith
  finally have "floor_log2 q < 1024" by (simp only: p2_less_iff)
  then have "e \<le> 1023" by (simp add: e)
  then consider "e \<le> 1022" | "e = 1023" by linarith
  then have "of_int n * 2 powi (e - 52) < (2::rat) powi 1024"
  proof cases
    case 1
    have "(2::rat) powi 1023 < 2 powi 1024" by (intro p2_strict_mono) simp
    then show ?thesis using upto_p53 [OF n 1] by linarith
  next
    case 2
    have "q / 2 powi 971 \<le> MAX_DOUBLE / 2 powi 971"
      using assms(2) by (intro divide_right_mono) simp_all
    also have "\<dots> = of_int (2 ^ 53 - 1)" by (simp add: MAX_DOUBLE_def)
    finally have "n \<le> 2 ^ 53 - 1" unfolding nd 2 by (intro round_even_le) simp
    then have "(of_int n :: rat) \<le> of_int (2 ^ 53 - 1)" by (simp only: of_int_le_iff)
    then have "of_int n * (2::rat) powi 971 \<le> of_int (2 ^ 53 - 1) * 2 powi 971"
      by (intro mult_right_mono) simp_all
    also have "\<dots> = MAX_DOUBLE" by (simp add: MAX_DOUBLE_def)
    finally show ?thesis using MAX_DOUBLE_less 2 by simp
  qed
  then show ?thesis by (simp add: r)
qed

lemma rnd_finite:
  assumes "\<bar>q\<bar> \<le> MAX_DOUBLE"
  shows "is_finite (rnd q)"
proof -
  consider "q = 0" | "0 < q" | "0 < - q" by linarith
  then show ?thesis
  proof cases
    case 1
    then show ?thesis by simp
  next
    case 2
    then show ?thesis using assms by (intro rnd_finite_pos) simp_all
  next
    case 3
    then have "is_finite (rnd (- q))" using assms by (intro rnd_finite_pos) simp_all
    then show ?thesis by (cases "rnd q") (simp_all add: rnd_minus)
  qed
qed

lemma size_small:
  "capacity d * SIZEOF_DOUBLE \<le> PTRDIFF_MAX \<Longrightarrow> capacity d < 2 ^ 60"
  by (simp add: SIZEOF_DOUBLE_def PTRDIFF_MAX_def)

lemma buffer_inv_SomeD:
  assumes "buffer_inv d" "values_buf d = Some xs"
  shows "length xs = capacity d" "0 < capacity d" "capacity d < 2 ^ 60"
    "count d \<le> capacity d" "head d < capacity d"
    "tail d = (head d + count d) mod capacity d"
    "capacity d * SIZEOF_DOUBLE \<le> PTRDIFF_MAX"
proof -
  from assms show "capacity d * SIZEOF_DOUBLE \<le> PTRDIFF_MAX" by (simp add: buffer_inv_def)
  then show "capacity d < 2 ^ 60" by (rule size_small)
qed (use assms in \<open>simp_all add: buffer_inv_def\<close>)

lemma get_circular_value_inv:
  assumes "buffer_inv d" "values_buf d = Some xs" "i \<le> capacity d"
  shows "get_circular_value d i = Some (xs ! ((head d + i) mod capacity d))"
proof -
  from assms have c: "capacity d < 2 ^ 60" "head d < capacity d" "length xs = capacity d"
    "0 < capacity d"
    by (auto simp: buffer_inv_def dest: size_small)
  then have "head d + i < SIZE_MOD" using assms(3) by (simp add: SIZE_MOD_def)
  then show ?thesis using c assms(2)
    by (simp add: get_circular_value_def)
qed

lemma copy_values_inv:
  assumes "buffer_inv d" "values_buf d = Some xs" "count d \<le> length nv" "i \<le> count d"
  shows "copy_values d nv i
         = Some (take i nv @ map (\<lambda>j. xs ! ((head d + j) mod capacity d)) [i..<count d]
                 @ drop (count d) nv)"
  using assms
proof (induction d nv i rule: copy_values.induct)
  case (1 d nv i)
  show ?case
  proof (cases "i < count d")
    case False
    with 1 have "i = count d" by simp
    then show ?thesis by (subst copy_values.simps) simp
  next
    case True
    from "1.prems" have cc: "count d \<le> capacity d" by (simp add: buffer_inv_def)
    with True have g: "get_circular_value d i = Some (xs ! ((head d + i) mod capacity d))"
      using get_circular_value_inv [OF "1.prems"(1,2), of i] by simp
    let ?v = "xs ! ((head d + i) mod capacity d)"
    have l: "\<not> length nv \<le> i" using True "1.prems" by simp
    have ih: "copy_values d (nv[i := ?v]) (i + 1)
          = Some (take (i + 1) (nv[i := ?v])
                  @ map (\<lambda>j. xs ! ((head d + j) mod capacity d)) [i + 1..<count d]
                  @ drop (count d) (nv[i := ?v]))"
      using "1.IH" [OF True g l] "1.prems" True by simp
    have t: "take (i + 1) (nv[i := ?v]) = take i nv @ [?v]"
      using l by (simp add: take_Suc_conv_app_nth)
    have dr: "drop (count d) (nv[i := ?v]) = drop (count d) nv"
      using True by simp
    have up: "[i..<count d] = i # [i + 1..<count d]"
      using True by (simp add: upt_conv_Cons)
    have "copy_values d nv i = copy_values d (nv[i := ?v]) (i + 1)"
      by (subst copy_values.simps) (simp add: True g l del: copy_values.simps)
    also have "\<dots> = Some (take i nv @ map (\<lambda>j. xs ! ((head d + j) mod capacity d)) [i..<count d]
                 @ drop (count d) nv)"
      unfolding ih t dr up by simp
    finally show ?thesis .
  qed
qed

lemma malloc_gives:
  "n * SIZEOF_DOUBLE \<le> PTRDIFF_MAX \<Longrightarrow>
   malloc (Alloc_gives g) ((n * SIZEOF_DOUBLE) mod SIZE_MOD) = Some (map g [0..<n])"
  by (simp add: malloc_def SIZEOF_DOUBLE_def PTRDIFF_MAX_def SIZE_MOD_def)

lemma malloc_too_large:
  "n < 2 ^ 61 \<Longrightarrow> PTRDIFF_MAX < n * SIZEOF_DOUBLE \<Longrightarrow>
   malloc a ((n * SIZEOF_DOUBLE) mod SIZE_MOD) = None"
  by (simp add: malloc_def SIZEOF_DOUBLE_def PTRDIFF_MAX_def SIZE_MOD_def split: alloc.splits)

lemma grow_stats_buffer_gives:
  assumes "buffer_inv d" "values_buf d = Some xs"
    and "capacity d * 2 * SIZEOF_DOUBLE \<le> PTRDIFF_MAX"
  shows "grow_stats_buffer (Alloc_gives g) d = Some (SQLITE_OK, grown g d)"
proof -
  have c: "capacity d < 2 ^ 60" "count d \<le> capacity d"
    using buffer_inv_SomeD [OF assms(1,2)] by simp_all
  then have nc: "(capacity d * CAPACITY_GROWTH_FACTOR) mod SIZE_MOD = capacity d * 2"
    by (simp add: CAPACITY_GROWTH_FACTOR_def SIZE_MOD_def)
  have m: "malloc (Alloc_gives g) ((capacity d * 2 * SIZEOF_DOUBLE) mod SIZE_MOD)
           = Some (map g [0..<capacity d * 2])"
    using assms(3) by (rule malloc_gives)
  have cp: "copy_values d (map g [0..<capacity d * 2]) 0
            = Some (live d @ map g [count d..<capacity d * 2])"
    using copy_values_inv [OF assms(1,2), of "map g [0..<capacity d * 2]" 0] c
    by (simp add: live_def assms(2) drop_map)
  show ?thesis
    by (simp add: grow_stats_buffer_def nc m cp grown_def Let_def)
qed

lemma grow_stats_buffer_fails:
  "grow_stats_buffer Alloc_fails d = Some (SQLITE_NOMEM, d)"
  by (simp add: grow_stats_buffer_def malloc_def Let_def)

lemma grow_stats_buffer_too_large:
  assumes "buffer_inv d" "values_buf d = Some xs"
    and "PTRDIFF_MAX < capacity d * 2 * SIZEOF_DOUBLE"
  shows "grow_stats_buffer a d = Some (SQLITE_NOMEM, d)"
proof -
  have c: "capacity d < 2 ^ 60"
    using buffer_inv_SomeD [OF assms(1,2)] by simp
  then have nc: "(capacity d * CAPACITY_GROWTH_FACTOR) mod SIZE_MOD = capacity d * 2"
    by (simp add: CAPACITY_GROWTH_FACTOR_def SIZE_MOD_def)
  have "capacity d * 2 < 2 ^ 61" using c by simp
  then have "malloc a ((capacity d * 2 * SIZEOF_DOUBLE) mod SIZE_MOD) = None"
    using assms(3) by (rule malloc_too_large)
  then show ?thesis
    by (simp add: grow_stats_buffer_def nc Let_def)
qed

lemma grow_stats_buffer_cases:
  assumes "buffer_inv d" "values_buf d = Some xs"
  shows "grow_stats_buffer a d = Some (SQLITE_NOMEM, d)
         \<or> (\<exists>g. a = Alloc_gives g \<and> capacity d * 2 * SIZEOF_DOUBLE \<le> PTRDIFF_MAX
                 \<and> grow_stats_buffer a d = Some (SQLITE_OK, grown g d))"
proof (cases a)
  case Alloc_fails
  then show ?thesis by (simp add: grow_stats_buffer_fails)
next
  case (Alloc_gives g)
  show ?thesis
  proof (cases "capacity d * 2 * SIZEOF_DOUBLE \<le> PTRDIFF_MAX")
    case True
    then show ?thesis using grow_stats_buffer_gives [OF assms True] Alloc_gives by simp
  next
    case False
    then show ?thesis using grow_stats_buffer_too_large [OF assms, of a] by simp
  qed
qed

lemma live_grown:
  assumes "buffer_inv d" "values_buf d = Some xs"
  shows "live (grown g d) = live d"
proof -
  from assms have c: "count d \<le> capacity d" "0 < capacity d" by (auto simp: buffer_inv_def)
  have len: "length (live d) = count d" by (simp add: live_def assms(2))
  have "map (\<lambda>i. (live d @ map g [count d..<capacity d * 2]) ! (i mod (capacity d * 2)))
          [0..<count d] = live d"
  proof (rule nth_equalityI)
    show "length (map (\<lambda>i. (live d @ map g [count d..<capacity d * 2]) ! (i mod (capacity d * 2)))
          [0..<count d]) = length (live d)" by (simp add: len)
  next
    fix i assume "i < length (map (\<lambda>i. (live d @ map g [count d..<capacity d * 2])
        ! (i mod (capacity d * 2))) [0..<count d])"
    then have i: "i < count d" by simp
    then have "i mod (capacity d * 2) = i" using c by simp
    then show "map (\<lambda>i. (live d @ map g [count d..<capacity d * 2]) ! (i mod (capacity d * 2)))
          [0..<count d] ! i = live d ! i"
      using i by (simp add: nth_append len)
  qed
  then show ?thesis
    by (subst live_def) (simp add: grown_def)
qed

lemma buffer_inv_grown:
  assumes "buffer_inv d" "values_buf d = Some xs"
    and "capacity d * 2 * SIZEOF_DOUBLE \<le> PTRDIFF_MAX"
  shows "buffer_inv (grown g d)"
proof -
  from assms have c: "count d \<le> capacity d" "0 < capacity d" by (auto simp: buffer_inv_def)
  have len: "length (live d) = count d" by (simp add: live_def assms(2))
  show ?thesis using c assms(3)
    by (simp add: buffer_inv_def grown_def len)
qed

lemma mod_add_inj:
  fixes a c i j :: nat
  assumes "(a + i) mod c = (a + j) mod c" "i < c" "j < c"
  shows "i = j"
proof (rule ccontr)
  assume ne: "i \<noteq> j"
  { fix i j :: nat assume h: "(a + i) mod c = (a + j) mod c" "i < j" "j < c"
    then have "c dvd (a + j) - (a + i)"
      using mod_eq_dvd_iff_nat [of "a + i" "a + j" c] by simp
    then have "c dvd j - i" by simp
    then have "c \<le> j - i" using h(2) by (intro dvd_imp_le) simp_all
    then have False using h(3) by simp }
  note * = this
  from ne consider "i < j" | "j < i" by linarith
  then show False using * [of i j] * [of j i] assms by cases simp_all
qed

lemma add_to_circular_buffer_inv:
  assumes "buffer_inv d" "values_buf d = Some xs" "count d < capacity d"
  shows "add_to_circular_buffer d v = Some (added v xs d)"
proof -
  note i = buffer_inv_SomeD [OF assms(1,2)]
  have t: "tail d < capacity d" using i by simp
  then have "(tail d + 1) mod SIZE_MOD = tail d + 1" "(count d + 1) mod SIZE_MOD = count d + 1"
    using i(3) assms(3) by (simp_all add: SIZE_MOD_def)
  moreover have "\<not> (length xs \<le> tail d \<or> capacity d = 0)"
    using t i(1) by simp
  ultimately show ?thesis
    by (simp add: add_to_circular_buffer_def assms(2) added_def)
qed

lemma buffer_inv_added:
  assumes "buffer_inv d" "values_buf d = Some xs" "count d < capacity d"
  shows "buffer_inv (added v xs d)"
proof -
  note i = buffer_inv_SomeD [OF assms(1,2)]
  have "((head d + count d) mod capacity d + 1) mod capacity d
        = (head d + (count d + 1)) mod capacity d"
    by (simp add: mod_Suc_eq)
  then show ?thesis using i assms(3)
    by (simp add: buffer_inv_def added_def)
qed

lemma live_added:
  assumes "buffer_inv d" "values_buf d = Some xs" "count d < capacity d"
  shows "live (added v xs d) = live d @ [v]"
proof -
  note i = buffer_inv_SomeD [OF assms(1,2)]
  have t: "tail d < length xs" using i by simp
  have old: "xs[tail d := v] ! ((head d + j) mod capacity d) = xs ! ((head d + j) mod capacity d)"
    if "j < count d" for j
  proof -
    have "(head d + j) mod capacity d \<noteq> (head d + count d) mod capacity d"
      using mod_add_inj [of "head d" j "capacity d" "count d"] that assms(3) by auto
    then show ?thesis using i by simp
  qed
  have new: "xs[tail d := v] ! ((head d + count d) mod capacity d) = v"
    using t i by simp
  have "live (added v xs d)
        = map (\<lambda>j. xs[tail d := v] ! ((head d + j) mod capacity d)) [0..<count d + 1]"
    by (simp add: live_def added_def)
  also have "\<dots> = map (\<lambda>j. xs ! ((head d + j) mod capacity d)) [0..<count d] @ [v]"
    using old new by simp
  finally show ?thesis by (simp add: live_def assms(2))
qed

lemma remove_from_circular_buffer_inv:
  assumes "buffer_inv d" "values_buf d = Some xs" "0 < count d"
  shows "remove_from_circular_buffer d = Some (hd (live d), removed d)"
proof -
  note i = buffer_inv_SomeD [OF assms(1,2)]
  have "(head d + 1) mod SIZE_MOD = head d + 1" using i by (simp add: SIZE_MOD_def)
  moreover have "hd (live d) = xs ! head d"
    using assms(3) i by (simp add: live_def assms(2) hd_map upt_conv_Cons)
  ultimately show ?thesis using i assms(3)
    by (simp add: remove_from_circular_buffer_def assms(2) removed_def)
qed

lemma buffer_inv_removed:
  assumes "buffer_inv d" "values_buf d = Some xs" "0 < count d"
  shows "buffer_inv (removed d)"
proof -
  note i = buffer_inv_SomeD [OF assms(1,2)]
  have "((head d + 1) mod capacity d + (count d - 1)) mod capacity d
        = (head d + 1 + (count d - 1)) mod capacity d"
    by (rule mod_add_left_eq)
  then have "((head d + 1) mod capacity d + (count d - 1)) mod capacity d
        = (head d + count d) mod capacity d"
    using assms(3) by simp
  then show ?thesis using i assms(3)
    by (simp add: buffer_inv_def removed_def assms(2))
qed

lemma live_removed:
  assumes "buffer_inv d" "values_buf d = Some xs" "0 < count d"
  shows "live (removed d) = tl (live d)"
proof -
  have e: "(Suc (head d) mod capacity d + j) mod capacity d = Suc (head d + j) mod capacity d"
    for j
    using mod_add_left_eq [of "Suc (head d)" "capacity d" j] by simp
  have "tl (live d) = map (\<lambda>j. xs ! ((head d + j) mod capacity d)) [Suc 0..<count d]"
    by (simp add: live_def assms(2) flip: map_tl)
  also have "[Suc 0..<count d] = map Suc [0..<count d - 1]"
    using assms(3) by (simp add: map_Suc_upt)
  finally show ?thesis
    by (simp add: live_def removed_def assms(2) e comp_def)
qed

lemma blank_zero_filled: "blank zero_filled"
  by (simp add: blank_def zero_filled_def)

lemma buffer_inv_NoneD: "buffer_inv d \<Longrightarrow> values_buf d = None \<Longrightarrow> blank d"
  by (simp add: buffer_inv_def)

lemma blank_data_of: "ctx_inv ctx \<Longrightarrow> values_buf (data_of ctx) = None \<Longrightarrow> blank (data_of ctx)"
  by (cases ctx) (simp_all add: blank_zero_filled buffer_inv_NoneD)

lemma init_window_stats_data_blank:
  assumes "blank d0" "init_window_stats_data a d0 = (rc1, d1)"
  shows "buffer_inv d1" "same_layout d1 d0" "(rc1 = SQLITE_OK) = (values_buf d1 \<noteq> None)"
    "capacity d1 = INITIAL_CAPACITY"
proof -
  have m: "malloc a ((INITIAL_CAPACITY * SIZEOF_DOUBLE) mod SIZE_MOD) = None
        \<or> (\<exists>g. malloc a ((INITIAL_CAPACITY * SIZEOF_DOUBLE) mod SIZE_MOD)
                 = Some (map g [0..<INITIAL_CAPACITY]))"
    by (cases a)
      (auto simp: malloc_def INITIAL_CAPACITY_def SIZEOF_DOUBLE_def SIZE_MOD_def
        PTRDIFF_MAX_def)
  from m assms show "buffer_inv d1"
    by (auto simp: init_window_stats_data_def Let_def buffer_inv_def blank_def
        INITIAL_CAPACITY_def SIZEOF_DOUBLE_def PTRDIFF_MAX_def)
  from m assms show "same_layout d1 d0"
    by (auto simp: init_window_stats_data_def Let_def same_layout_def same_window_def
        blank_def live_def)
  from m assms show "(rc1 = SQLITE_OK) = (values_buf d1 \<noteq> None)"
    by (auto simp: init_window_stats_data_def Let_def)
  from m assms show "capacity d1 = INITIAL_CAPACITY"
    by (auto simp: init_window_stats_data_def Let_def)
qed

lemma same_layout_refl: "same_layout d d"
  by (simp add: same_layout_def same_window_def)

lemma prepare_props:
  assumes "ctx_inv ctx"
    and "(if values_buf (data_of ctx) = None
          then init_window_stats_data a (data_of ctx) else (SQLITE_OK, data_of ctx)) = (rc1, d1)"
  shows "buffer_inv d1" "same_layout d1 (data_of ctx)"
    "(rc1 = SQLITE_OK) = (values_buf d1 \<noteq> None)"
    "values_buf (data_of ctx) \<noteq> None \<Longrightarrow> d1 = data_of ctx"
proof -
  show "values_buf (data_of ctx) \<noteq> None \<Longrightarrow> d1 = data_of ctx"
    using assms(2) by (auto split: if_splits)
  have "buffer_inv d1 \<and> same_layout d1 (data_of ctx)
    \<and> (rc1 = SQLITE_OK) = (values_buf d1 \<noteq> None)"
  proof (cases "values_buf (data_of ctx) = None")
    case True
    then have b: "blank (data_of ctx)" using assms(1) by (simp add: blank_data_of)
    from True assms(2) have i: "init_window_stats_data a (data_of ctx) = (rc1, d1)" by simp
    show ?thesis
      using init_window_stats_data_blank [OF b i] by simp
  next
    case False
    with assms(2) have e: "d1 = data_of ctx" "rc1 = SQLITE_OK" by simp_all
    from False assms(1) have "buffer_inv (data_of ctx)" by (cases ctx) (simp_all add: zero_filled_def)
    then show ?thesis
      using e False by (simp add: same_layout_refl)
  qed
  then show "buffer_inv d1" "same_layout d1 (data_of ctx)"
    "(rc1 = SQLITE_OK) = (values_buf d1 \<noteq> None)"
    by simp_all
qed

lemma aggregate_context_step:
  "sqlite3_aggregate_context ok 56 ctx = None \<or> sqlite3_aggregate_context ok 56 ctx = Some (data_of ctx)"
  by (cases ctx) (simp_all add: sqlite3_aggregate_context_def)

lemma live_sum_update [simp]: "live (d\<lparr>sum_val := a, sum_sq := b\<rparr>) = live d"
  by (simp add: live_def split: option.split)

lemma inserted_props:
  assumes "buffer_inv d" "values_buf d = Some xs" "count d < capacity d"
  shows "buffer_inv (inserted v d)" "live (inserted v d) = live d @ [v]"
    "count (inserted v d) = count d + 1" "sum_val (inserted v d) = dadd (sum_val d) v"
    "sum_sq (inserted v d) = dadd (sum_sq d) (dmul v v)" "values_buf (inserted v d) \<noteq> None"
    "capacity (inserted v d) = capacity d"
proof -
  have a: "buffer_inv (added v xs d)" "live (added v xs d) = live d @ [v]"
    using buffer_inv_added [OF assms] live_added [OF assms] by simp_all
  have v: "values_buf (added v xs d) \<noteq> None" by (simp add: added_def)
  show "buffer_inv (inserted v d)"
    using a(1) v by (auto simp: inserted_def assms(2) buffer_inv_def)
  show "live (inserted v d) = live d @ [v]"
    using a(2) by (simp add: inserted_def assms(2))
  show "count (inserted v d) = count d + 1" "sum_val (inserted v d) = dadd (sum_val d) v"
    "sum_sq (inserted v d) = dadd (sum_sq d) (dmul v v)" "values_buf (inserted v d) \<noteq> None"
    "capacity (inserted v d) = capacity d"
    by (simp_all add: inserted_def added_def)
qed

lemma stats_step_cases:
  assumes "ctx_inv ctx"
  obtains
    (untouched) r where "stats_step env argv ctx = (r, ctx)" "r \<noteq> Undefined" "r \<noteq> Done"
  | (prepared) r d1 where "stats_step env argv ctx = (r, Context d1)" "r \<noteq> Undefined"
      "buffer_inv d1" "same_layout d1 (data_of ctx)"
      "values_buf (data_of ctx) \<noteq> None \<Longrightarrow> d1 = data_of ctx"
      "r = Done \<Longrightarrow> argv = [SqlNull]"
  | (stored) arg v d2 where "argv = [arg]" "arg \<noteq> SqlNull" "numeric_value arg = Some v"
      "stats_step env argv ctx = (Done, Context (inserted v d2))"
      "buffer_inv d2" "values_buf d2 \<noteq> None" "count d2 < capacity d2"
      "same_window d2 (data_of ctx)"
proof (cases "length argv \<noteq> 1")
  case True
  then show ?thesis
    by (intro untouched [of "Error_msg ''Statistics functions require exactly 1 argument''"])
      (simp_all add: stats_step_def)
next
  case False
  then obtain arg where argv: "argv = [arg]"
    by (cases argv) simp_all
  show ?thesis
  proof (cases "sqlite3_aggregate_context (context_alloc env) 56 ctx")
    case None
    then show ?thesis by (intro untouched [of Error_nomem]) (simp_all add: stats_step_def argv)
  next
    case (Some d0)
    then have d0: "d0 = data_of ctx" using aggregate_context_step [of "context_alloc env" ctx] by simp
    obtain rc1 d1 where p: "(if values_buf (data_of ctx) = None
          then init_window_stats_data (init_alloc env) (data_of ctx)
          else (SQLITE_OK, data_of ctx)) = (rc1, d1)"
      by (cases "(if values_buf (data_of ctx) = None
          then init_window_stats_data (init_alloc env) (data_of ctx)
          else (SQLITE_OK, data_of ctx))") simp
    note pp = prepare_props [OF assms p]
    have unf: "stats_step env argv ctx =
      (if rc1 \<noteq> SQLITE_OK then (Error_nomem, Context d1)
             else if arg = SqlNull then (Done, Context d1)
             else case numeric_value arg of
               None \<Rightarrow> (Error_msg ''Invalid data type, expected numeric value.'', Context d1)
             | Some v \<Rightarrow>
                 (case (if capacity d1 \<le> count d1 then grow_stats_buffer (grow_alloc env) d1
                        else Some (SQLITE_OK, d1)) of
                    None \<Rightarrow> (Undefined, Context d1)
                  | Some (rc2, d2) \<Rightarrow>
                      if rc2 \<noteq> SQLITE_OK then (Error_nomem, Context d2)
                      else case add_to_circular_buffer d2 v of
                        None \<Rightarrow> (Undefined, Context d2)
                      | Some d3 \<Rightarrow>
                          (Done, Context (d3\<lparr>sum_val := dadd (sum_val d3) v,
                                               sum_sq := dadd (sum_sq d3) (dmul v v)\<rparr>))))"
      using p by (simp add: stats_step_def argv Some d0 del: One_nat_def)
    show ?thesis
    proof (cases "rc1 \<noteq> SQLITE_OK")
      case True
      then show ?thesis using unf pp by (intro prepared [of Error_nomem d1]) simp_all
    next
      case ok: False
      then obtain xs where xs: "values_buf d1 = Some xs" using pp(3) by auto
      note i1 = buffer_inv_SomeD [OF pp(1) xs]
      show ?thesis
      proof (cases "arg = SqlNull")
        case True
        then show ?thesis using unf pp ok by (intro prepared [of Done d1]) (simp_all add: argv)
      next
        case nn: False
        show ?thesis
        proof (cases "numeric_value arg")
          case None
          then show ?thesis using unf pp ok nn
            by (intro prepared [of "Error_msg ''Invalid data type, expected numeric value.''" d1])
              simp_all
        next
          case (Some v)
          have sw1: "same_window d1 (data_of ctx)" using pp(2) by (simp add: same_layout_def)
          show ?thesis
          proof (cases "capacity d1 \<le> count d1")
            case False
            then have c: "count d1 < capacity d1" by simp
            have "add_to_circular_buffer d1 v = Some (added v xs d1)"
              using add_to_circular_buffer_inv [OF pp(1) xs c] .
            then have "stats_step env argv ctx = (Done, Context (inserted v d1))"
              using unf ok nn Some False by (simp add: inserted_def xs added_def)
            then show ?thesis using pp(1) xs c sw1 nn Some argv
              by (intro stored [of arg v d1]) simp_all
          next
            case True
            from grow_stats_buffer_cases [OF pp(1) xs, of "grow_alloc env"]
            show ?thesis
            proof
              assume "grow_stats_buffer (grow_alloc env) d1 = Some (SQLITE_NOMEM, d1)"
              then have "stats_step env argv ctx = (Error_nomem, Context d1)"
                using unf ok nn Some True by simp
              then show ?thesis using pp by (intro prepared [of Error_nomem d1]) simp_all
            next
              assume "\<exists>g. grow_alloc env = Alloc_gives g
                  \<and> capacity d1 * 2 * SIZEOF_DOUBLE \<le> PTRDIFF_MAX
                  \<and> grow_stats_buffer (grow_alloc env) d1 = Some (SQLITE_OK, grown g d1)"
              then obtain g where g: "capacity d1 * 2 * SIZEOF_DOUBLE \<le> PTRDIFF_MAX"
                "grow_stats_buffer (grow_alloc env) d1 = Some (SQLITE_OK, grown g d1)"
                by blast
              let ?d2 = "grown g d1"
              have i2: "buffer_inv ?d2" using buffer_inv_grown [OF pp(1) xs g(1)] .
              have l2: "live ?d2 = live d1" using live_grown [OF pp(1) xs] .
              have xs2: "values_buf ?d2 = Some (live d1 @ map g [count d1..<capacity d1 * 2])"
                by (simp add: grown_def)
              have c2: "count ?d2 < capacity ?d2" using i1 by (simp add: grown_def)
              have sw2: "same_window ?d2 (data_of ctx)"
                using sw1 l2 by (simp add: same_window_def grown_def)
              have "add_to_circular_buffer ?d2 v
                    = Some (added v (live d1 @ map g [count d1..<capacity d1 * 2]) ?d2)"
                using add_to_circular_buffer_inv [OF i2 xs2 c2] .
              then have "stats_step env argv ctx = (Done, Context (inserted v ?d2))"
                using unf ok nn Some True g(2) by (simp add: inserted_def xs2 added_def)
              then show ?thesis using i2 xs2 c2 sw2 nn Some argv
                by (intro stored [of arg v ?d2]) simp_all
            qed
          qed
        qed
      qed
    qed
  qed
qed

lemma evicted_props:
  assumes "buffer_inv d" "values_buf d = Some xs" "0 < count d"
  shows "buffer_inv (evicted d)" "live (evicted d) = tl (live d)"
    "count (evicted d) = count d - 1" "sum_val (evicted d) = dsub (sum_val d) (hd (live d))"
    "sum_sq (evicted d) = dsub (sum_sq d) (dmul (hd (live d)) (hd (live d)))"
    "values_buf (evicted d) = Some xs" "capacity (evicted d) = capacity d"
proof -
  have r: "buffer_inv (removed d)" "live (removed d) = tl (live d)"
    using buffer_inv_removed [OF assms] live_removed [OF assms] by simp_all
  have v: "values_buf (removed d) = Some xs" by (simp add: removed_def assms(2))
  show "buffer_inv (evicted d)"
    using r(1) v by (auto simp: evicted_def buffer_inv_def)
  show "live (evicted d) = tl (live d)"
    using r(2) by (simp add: evicted_def)
  show "count (evicted d) = count d - 1" "sum_val (evicted d) = dsub (sum_val d) (hd (live d))"
    "sum_sq (evicted d) = dsub (sum_sq d) (dmul (hd (live d)) (hd (live d)))"
    "values_buf (evicted d) = Some xs" "capacity (evicted d) = capacity d"
    by (simp_all add: evicted_def removed_def assms(2))
qed

lemma stats_inverse_cases:
  assumes "ctx_inv ctx"
  obtains
    (no_change) "stats_inverse argv ctx = (Done, ctx)"
      "count (data_of ctx) = 0 \<or> (\<exists>rest. argv = SqlNull # rest)"
  | (no_argument) "argv = []" "0 < count (data_of ctx)" "stats_inverse argv ctx = (Undefined, ctx)"
  | (removed) d arg rest where "ctx = Context d" "argv = arg # rest" "arg \<noteq> SqlNull"
      "0 < count d" "values_buf d \<noteq> None" "buffer_inv d"
      "stats_inverse argv ctx = (Done, Context (evicted d))"
proof (cases ctx)
  case NoContext
  show ?thesis
    by (rule no_change)
      (simp_all add: NoContext stats_inverse_def sqlite3_aggregate_context_def zero_filled_def)
next
  case (Context d)
  show ?thesis
  proof (cases "values_buf d = None \<or> count d \<le> 0")
    case True
    moreover have "values_buf d = None \<Longrightarrow> count d = 0"
      using assms Context by (auto dest: buffer_inv_NoneD simp: blank_def)
    ultimately have "stats_inverse argv ctx = (Done, ctx)" "count (data_of ctx) = 0"
      using Context by (auto simp: stats_inverse_def sqlite3_aggregate_context_def)
    then show ?thesis using no_change by blast
  next
    case False
    then obtain xs where xs: "values_buf d = Some xs" and c: "0 < count d" by auto
    have i: "buffer_inv d" using assms Context by simp
    show ?thesis
    proof (cases argv)
      case Nil
      then have "stats_inverse argv ctx = (Undefined, ctx)" "0 < count (data_of ctx)"
        using Context xs c by (simp_all add: stats_inverse_def sqlite3_aggregate_context_def)
      then show ?thesis using no_argument Nil by blast
    next
      case (Cons arg rest)
      show ?thesis
      proof (cases "arg = SqlNull")
        case True
        then have "stats_inverse argv ctx = (Done, ctx)"
          using Context xs c Cons by (simp add: stats_inverse_def sqlite3_aggregate_context_def)
        then show ?thesis using no_change True Cons by blast
      next
        case nn: False
        have "remove_from_circular_buffer d = Some (hd (live d), removed d)"
          using remove_from_circular_buffer_inv [OF i xs c] .
        then have "stats_inverse argv ctx = (Done, Context (evicted d))"
          using Context xs c Cons nn
          by (simp add: stats_inverse_def sqlite3_aggregate_context_def evicted_def removed_def)
        then show ?thesis using removed [of d arg rest] Context Cons nn c xs i by simp
      qed
    qed
  qed
qed

lemma stats_step_inv:
  assumes "ctx_inv ctx" "stats_step env argv ctx = (r, ctx')"
  shows "ctx_inv ctx' \<and> r \<noteq> Undefined"
  using assms(1)
proof (cases rule: stats_step_cases [of ctx env argv])
  case (untouched r)
  then show ?thesis using assms by simp
next
  case (prepared r d1)
  then show ?thesis using assms by simp
next
  case (stored arg v d2)
  then obtain xs where "values_buf d2 = Some xs" by auto
  then show ?thesis using inserted_props(1) [OF stored(5) _ stored(7), of xs v] stored(4) assms(2)
    by simp
qed

lemma stats_inverse_inv:
  assumes "ctx_inv ctx" "stats_inverse argv ctx = (r, ctx')"
  shows "ctx_inv ctx'"
  using assms(1)
proof (cases rule: stats_inverse_cases [of ctx argv])
  case no_change
  then show ?thesis using assms by simp
next
  case no_argument
  then show ?thesis using assms by simp
next
  case (removed d arg rest)
  then obtain xs where "values_buf d = Some xs" by auto
  then show ?thesis using evicted_props(1) [OF removed(6) _ removed(4), of xs] removed(7) assms(2)
    by simp
qed

lemma call_result_inv:
  assumes "ctx_inv ctx" "call_result c ctx = (r, ctx')"
  shows "ctx_inv ctx'"
proof (cases c)
  case (Step env argv)
  then show ?thesis using stats_step_inv [OF assms(1), of env argv r ctx'] assms(2) by simp
next
  case (Inverse argv)
  then show ?thesis using stats_inverse_inv [OF assms(1), of argv r ctx'] assms(2) by simp
qed

lemma run_inv:
  assumes "ctx_inv ctx" "run calls ctx = Some ctx'"
  shows "ctx_inv ctx'"
  using assms
proof (induction calls arbitrary: ctx)
  case Nil
  then show ?case by simp
next
  case (Cons c cs)
  obtain r ctx1 where cr: "call_result c ctx = (r, ctx1)" by (cases "call_result c ctx")
  with Cons.prems(2) have "run cs ctx1 = Some ctx'" by (cases r) simp_all
  moreover have "ctx_inv ctx1" using call_result_inv [OF Cons.prems(1) cr] .
  ultimately show ?case using Cons.IH by blast
qed

lemma run_defined:
  assumes "ctx_inv ctx" "Inverse [] \<notin> set calls"
  shows "run calls ctx \<noteq> None"
  using assms
proof (induction calls arbitrary: ctx)
  case Nil
  then show ?case by simp
next
  case (Cons c cs)
  obtain r ctx1 where cr: "call_result c ctx = (r, ctx1)" by (cases "call_result c ctx")
  have i: "ctx_inv ctx1" using call_result_inv [OF Cons.prems(1) cr] .
  have "r \<noteq> Undefined"
  proof (cases c)
    case (Step env argv)
    then show ?thesis using stats_step_inv [OF Cons.prems(1), of env argv r ctx1] cr by simp
  next
    case (Inverse argv)
    with Cons.prems(2) have ne: "argv \<noteq> []" by auto
    from Cons.prems(1) show ?thesis
      by (cases rule: stats_inverse_cases [of ctx argv]) (use cr Inverse ne in auto)
  qed
  then have "run (c # cs) ctx = run cs ctx1" using cr by (cases r) simp_all
  then show ?case using Cons.IH [OF i] Cons.prems(2) by simp
qed

lemmas eval_defs = stats_step_def stats_inverse_def sqlite3_aggregate_context_def
  init_window_stats_data_def malloc_def add_to_circular_buffer_def
  remove_from_circular_buffer_def zero_filled_def plentiful_def INITIAL_CAPACITY_def
  SIZEOF_DOUBLE_def SIZE_MOD_def PTRDIFF_MAX_def double_of_int64_def

lemma rnd_eval:
  assumes "2 powi e0 \<le> q" "q < 2 powi (e0 + 1)" "- 1022 \<le> e0"
    and "\<bar>q / 2 powi (e0 - 52) - of_int n\<bar> < 1 / 2
         \<or> (\<bar>q / 2 powi (e0 - 52) - of_int n\<bar> = 1 / 2 \<and> even n)"
    and "of_int n * 2 powi (e0 - 52) < (2::rat) powi 1024"
  shows "rnd q = Fin (of_int n * 2 powi (e0 - 52))"
proof -
  have m: "max e0 (- 1022) = e0" using assms(3) by simp
  have "round_even (q / 2 powi (max e0 (- 1022) - 52)) = n"
    unfolding m using assms(4) by (rule round_evenI)
  from rnd_pos_eval [OF assms(1,2) this] assms(5) show ?thesis
    unfolding m by (simp only: not_le [symmetric] if_False)
qed

lemma after_runI: "run calls NoContext = Some (Context d) \<Longrightarrow> after_run f calls = Some (f d)"
  by (simp add: after_run_def)

text \<open>The roundings that occur when 0.1 is inserted three times.\<close>

lemma tenth_1: "rnd (12980742146337070512478121581609 / 1298074214633706907132624082305024) = Fin (1441151880758559 / 144115188075855872)"
  using rnd_eval [of "-7" "(12980742146337070512478121581609 / 1298074214633706907132624082305024)" "5764607523034236"] by simp

lemma tenth_2: "rnd (3602879701896397 / 36028797018963968) = Fin (3602879701896397 / 36028797018963968)"
  using rnd_eval [of "-4" "(3602879701896397 / 36028797018963968)" "7205759403792794"] by simp

lemma tenth_3: "rnd (1441151880758559 / 144115188075855872) = Fin (1441151880758559 / 144115188075855872)"
  using rnd_eval [of "-7" "(1441151880758559 / 144115188075855872)" "5764607523034236"] by simp

lemma tenth_4: "rnd (3602879701896397 / 18014398509481984) = Fin (3602879701896397 / 18014398509481984)"
  using rnd_eval [of "-3" "(3602879701896397 / 18014398509481984)" "7205759403792794"] by simp

lemma tenth_5: "rnd (1441151880758559 / 72057594037927936) = Fin (1441151880758559 / 72057594037927936)"
  using rnd_eval [of "-6" "(1441151880758559 / 72057594037927936)" "5764607523034236"] by simp

lemma tenth_6: "rnd (10808639105689191 / 36028797018963968) = Fin (1351079888211149 / 4503599627370496)"
  using rnd_eval [of "-2" "(10808639105689191 / 36028797018963968)" "5404319552844596"] by simp

lemma tenth_7: "rnd (4323455642275677 / 144115188075855872) = Fin (4323455642275677 / 144115188075855872)"
  using rnd_eval [of "-6" "(4323455642275677 / 144115188075855872)" "8646911284551354"] by simp

lemma tenth_8: "rnd (1351079888211149 / 13510798882111488) = Fin (7205759403792795 / 72057594037927936)"
  using rnd_eval [of "-4" "(1351079888211149 / 13510798882111488)" "7205759403792795"] by simp

lemma tenth_9: "rnd (51922968585348296461431293912025 / 5192296858534827628530496329220096) = Fin (5764607523034237 / 576460752303423488)"
  using rnd_eval [of "-7" "(51922968585348296461431293912025 / 5192296858534827628530496329220096)" "5764607523034237"] by simp

lemma tenth_10: "rnd (- (1 / 576460752303423488)) = Fin (- (1 / 576460752303423488))"
  using rnd_eval [of "-59" "(1 / 576460752303423488)" "4503599627370496"] rnd_minus [of "(1 / 576460752303423488)"] by simp

lemma tenth_11: "rnd (3 / 2) = Fin (3 / 2)"
  using rnd_eval [of "0" "(3 / 2)" "6755399441055744"] by simp

lemma tenth_12: "rnd (- (3 / 1152921504606846976)) = Fin (- (3 / 1152921504606846976))"
  using rnd_eval [of "-59" "(3 / 1152921504606846976)" "6755399441055744"] rnd_minus [of "(3 / 1152921504606846976)"] by simp

lemmas tenth_facts = tenth_1 tenth_2 tenth_3 tenth_4 tenth_5 tenth_6 tenth_7 tenth_8 tenth_9 tenth_10 tenth_11 tenth_12

lemma double_of_size_range:
  assumes "1 \<le> n" "n < 2 ^ 64"
  shows "\<exists>r. double_of_size n = Fin r \<and> 1 \<le> r \<and> r \<le> MAX_DOUBLE"
proof -
  have ge: "(2::rat) powi 0 \<le> of_nat n" using assms(1) by simp
  have "(of_nat n :: rat) \<le> of_nat (2 ^ 64)" using assms(2) by (simp only: of_nat_le_iff)
  also have "\<dots> = 2 powi 64" by simp
  also have "\<dots> \<le> 2 powi 1023" by (intro p2_mono) simp
  also note MAX_DOUBLE_ge
  finally have "\<bar>of_nat n :: rat\<bar> \<le> MAX_DOUBLE" by simp
  then have "is_finite (rnd (of_nat n))" by (rule rnd_finite)
  then obtain r where r: "rnd (of_nat n) = Fin r" by (cases "rnd (of_nat n)") simp_all
  with rnd_lower [OF ge] have "1 \<le> r" by simp
  moreover have "r \<le> MAX_DOUBLE" using double_le_max [OF r] by simp
  ultimately show ?thesis using r by (simp add: double_of_size_def)
qed

lemma ddiv_by_size_finite:
  assumes "is_double (Fin s)" "1 \<le> r"
  shows "is_finite (ddiv (Fin s) (Fin r))"
proof -
  from assms(1) have "rnd s = Fin s" by simp
  then have "\<bar>s\<bar> \<le> MAX_DOUBLE" by (rule double_le_max)
  moreover have "\<bar>s / r\<bar> \<le> \<bar>s\<bar>"
  proof -
    have "\<bar>s / r\<bar> = \<bar>s\<bar> / r" using assms(2) by simp
    also have "\<dots> \<le> \<bar>s\<bar> / 1" using assms(2) by (intro divide_left_mono) simp_all
    finally show ?thesis by simp
  qed
  ultimately have "\<bar>s / r\<bar> \<le> MAX_DOUBLE" by linarith
  then have "is_finite (rnd (s / r))" by (rule rnd_finite)
  then show ?thesis using assms(2) by simp
qed

lemma dsub_square_not_nan:
  assumes "is_finite a" "is_finite m"
  shows "dsub a (dmul m m) \<noteq> NaN"
proof -
  from assms obtain x y where xy: "a = Fin x" "m = Fin y"
    by (cases a; cases m) simp_all
  from rnd_nonneg [of "y * y"] show ?thesis
    by (auto simp: xy)
qed

lemma population_not_nan:
  assumes "1 \<le> n" "n < 2 ^ 64" "is_finite s" "is_double s" "is_finite ss" "is_double ss"
  shows "dsub (ddiv ss (double_of_size n))
              (dmul (ddiv s (double_of_size n)) (ddiv s (double_of_size n))) \<noteq> NaN"
proof -
  from assms(3,5) obtain x y where xy: "s = Fin x" "ss = Fin y"
    by (cases s; cases ss) simp_all
  from double_of_size_range [OF assms(1,2)]
  obtain r where r: "double_of_size n = Fin r" "1 \<le> r" by blast
  have "is_finite (ddiv ss (double_of_size n))" "is_finite (ddiv s (double_of_size n))"
    unfolding r xy using assms(4,6) r(2) by (simp_all only: xy ddiv_by_size_finite)
  then show ?thesis by (rule dsub_square_not_nan)
qed

lemma size_ratio_positive:
  assumes "2 \<le> n" "n < 2 ^ 64"
  shows "\<exists>r. ddiv (double_of_size n) (double_of_size (n - 1)) = Fin r \<and> 0 < r"
proof -
  from double_of_size_range [of n] assms
  obtain a where a: "double_of_size n = Fin a" "1 \<le> a" "a \<le> MAX_DOUBLE" by auto
  have "1 \<le> n - 1" "n - 1 < 2 ^ 64" using assms by simp_all
  from double_of_size_range [OF this]
  obtain b where b: "double_of_size (n - 1) = Fin b" "1 \<le> b" "b \<le> MAX_DOUBLE" by blast
  have d: "ddiv (Fin a) (Fin b) = rnd (a / b)" using b(2) by simp
  have "a / b \<le> a / 1" using a(2) b(2) by (intro divide_left_mono) simp_all
  then have "\<bar>a / b\<bar> \<le> MAX_DOUBLE" using a b(2) by simp
  then have "is_finite (rnd (a / b))" by (rule rnd_finite)
  then obtain r where r: "rnd (a / b) = Fin r" by (cases "rnd (a / b)") simp_all
  have "(2::rat) powi (- 1074) \<le> 2 powi (- 1024)" by (intro p2_mono) simp
  also have "\<dots> = 1 / 2 powi 1024" by (simp only: power_int_minus_divide)
  also have "\<dots> \<le> 1 / b" using b(2,3) MAX_DOUBLE_less
    by (intro divide_left_mono) simp_all
  also have "\<dots> \<le> a / b" using a(2) b(2) by (intro divide_right_mono) simp_all
  finally have "2 powi (- 1074) \<le> a / b" .
  from rnd_positive [OF this] r have "0 < r" by simp
  then show ?thesis using r d a(1) b(1) by simp
qed

lemma dmul_positive_not_nan:
  assumes "x \<noteq> NaN" "0 < r"
  shows "dmul x (Fin r) \<noteq> NaN"
  using assms by (cases x) simp_all


lemma first_insert_run:
  assumes "numeric_value arg = Some v"
  shows "run [Step (plentiful g) [arg]] NoContext
         = Some (Context \<lparr>values_buf = Some ((map g [0..<100])[0 := v]), count = 1,
                    capacity = 100, head = 0, tail = 1,
                    sum_val = dadd (Fin 0) v, sum_sq = dadd (Fin 0) (dmul v v)\<rparr>)"
proof -
  from assms have "arg \<noteq> SqlNull" by (cases arg) simp_all
  then show ?thesis using assms by (simp add: eval_defs)
qed

lemma rnd_p600: "rnd (2 ^ 600) = Fin (2 ^ 600)"
  by (rule rnd_exact [of _ 1 600]) simp_all



lemma squares_nonneg: "0 \<le> sum_list (map (\<lambda>i. i * i) (ls :: int list))"
  by (induction ls) simp_all

lemma abs_le_square: "\<bar>i\<bar> \<le> i * (i :: int)"
proof (cases "i = 0")
  case False
  then have "1 \<le> \<bar>i\<bar>" by simp
  then have "\<bar>i\<bar> * 1 \<le> \<bar>i\<bar> * \<bar>i\<bar>" by (intro mult_left_mono) simp_all
  then show ?thesis by (simp add: abs_mult_self_eq)
qed simp

lemma abs_sum_le_squares: "\<bar>sum_list ls\<bar> \<le> sum_list (map (\<lambda>i. i * i) (ls :: int list))"
proof (induction ls)
  case (Cons i ls)
  have "\<bar>i + sum_list ls\<bar> \<le> \<bar>i\<bar> + \<bar>sum_list ls\<bar>" by (rule abs_triangle_ineq)
  then show ?case using Cons abs_le_square [of i] by simp
qed simp

lemma length_live: "buffer_inv d \<Longrightarrow> length (live d) = count d"
  by (cases "values_buf d") (simp_all add: live_def buffer_inv_def blank_def)

lemma exact_sum_ints: "exact_sum (map (\<lambda>i. Fin (of_int i)) ls) = of_int (sum_list ls)"
  unfolding exact_sum_def by (induction ls) simp_all

lemma exact_sum_squares_ints:
  "exact_sum_squares (map (\<lambda>i. Fin (of_int i)) ls) = of_int (sum_list (map (\<lambda>i. i * i) ls))"
  unfolding exact_sum_squares_def by (induction ls) simp_all




text \<open>The roundings that occur in the variances of 10, 12, 15, 13, 18, 20, 22, 25, 23, 28.\<close>

lemma ten_1: "rnd (93 / 5) = Fin (2617717283409101 / 140737488355328)"
  using rnd_eval [of "4" "(93 / 5)" "5235434566818202"] by simp

lemma ten_2: "rnd (1892 / 5) = Fin (3328441599603507 / 8796093022208)"
  using rnd_eval [of "8" "(1892 / 5)" "6656883199207014"] by simp

lemma ten_3: "rnd (6852443775858723605552529628201 / 19807040628566084398385987584) = Fin (380387042745385 / 1099511627776)"
  using rnd_eval [of "8" "(6852443775858723605552529628201 / 19807040628566084398385987584)" "6086192683926160"] by simp

lemma ten_4: "rnd (285345257640427 / 8796093022208) = Fin (285345257640427 / 8796093022208)"
  using rnd_eval [of "5" "(285345257640427 / 8796093022208)" "4565524122246832"] by simp

lemma ten_5: "rnd (10 / 9) = Fin (2501999792983609 / 2251799813685248)"
  using rnd_eval [of "0" "(10 / 9)" "5003999585967218"] by simp

lemma ten_6: "rnd (713933775545202928313626761043 / 19807040628566084398385987584) = Fin (2536402290137129 / 70368744177664)"
  using rnd_eval [of "5" "(713933775545202928313626761043 / 19807040628566084398385987584)" "5072804580274258"] by simp

lemmas ten_facts = ten_1 ten_2 ten_3 ten_4 ten_5 ten_6

lemma evict_all_live:
  assumes "buffer_inv d" "values_buf d = Some xs" "n \<le> count d"
  shows "evict_all n d = Some (take n (live d))"
  using assms
proof (induction n arbitrary: d)
  case 0
  then show ?case by simp
next
  case (Suc n)
  then have pos: "0 < count d" by simp
  note r = remove_from_circular_buffer_inv [OF Suc.prems(1,2) pos]
  have i: "buffer_inv (removed d)" using Suc.prems(1,2) pos by (rule buffer_inv_removed)
  have v: "values_buf (removed d) = Some xs" by (simp add: removed_def Suc.prems(2))
  have c: "n \<le> count (removed d)" using Suc.prems(3) by (simp add: removed_def)
  have l: "live (removed d) = tl (live d)" using Suc.prems(1,2) pos by (rule live_removed)
  have "length (live d) = count d" using Suc.prems(1) by (rule length_live)
  then have ne: "live d \<noteq> []" using pos by auto
  then have t: "take (Suc n) (live d) = hd (live d) # take n (tl (live d))"
    by (cases "live d") simp_all
  show ?case using Suc.IH [OF i v c] by (simp add: r l t)
qed

lemma init_window_stats_data_gives:
  "init_window_stats_data (Alloc_gives g) d
   = (SQLITE_OK, d\<lparr>capacity := INITIAL_CAPACITY,
                    values_buf := Some (map g [0..<INITIAL_CAPACITY]), count := 0, head := 0,
                    tail := 0, sum_val := Fin 0, sum_sq := Fin 0\<rparr>)"
  by (simp add: init_window_stats_data_def malloc_def INITIAL_CAPACITY_def SIZEOF_DOUBLE_def
      SIZE_MOD_def PTRDIFF_MAX_def)

lemma buffer_inv_initial: "buffer_inv (initial g)"
  by (simp add: initial_def buffer_inv_def zero_filled_def INITIAL_CAPACITY_def
      SIZEOF_DOUBLE_def PTRDIFF_MAX_def)

lemma initial_fields:
  "values_buf (initial g) = Some (map g [0..<INITIAL_CAPACITY])" "count (initial g) = 0"
  "capacity (initial g) = INITIAL_CAPACITY" "head (initial g) = 0" "tail (initial g) = 0"
  "sum_val (initial g) = Fin 0" "sum_sq (initial g) = Fin 0" "live (initial g) = []"
  by (simp_all add: initial_def zero_filled_def live_def)

lemma first_step_initialises:
  assumes "numeric_value arg = Some v"
  shows "stats_step \<lparr>context_alloc = True, init_alloc = Alloc_gives g, grow_alloc = a\<rparr> [arg]
           NoContext
         = (Done, Context (inserted v (initial g)))"
proof -
  from assms have nn: "arg \<noteq> SqlNull" by (cases arg) simp_all
  have i: "init_window_stats_data (Alloc_gives g) zero_filled = (SQLITE_OK, initial g)"
    by (simp add: init_window_stats_data_gives initial_def zero_filled_def)
  have c: "count (initial g) < capacity (initial g)"
    by (simp add: initial_fields INITIAL_CAPACITY_def)
  have "add_to_circular_buffer (initial g) v
        = Some (added v (map g [0..<INITIAL_CAPACITY]) (initial g))"
    using buffer_inv_initial initial_fields(1) c by (rule add_to_circular_buffer_inv)
  moreover have "values_buf zero_filled = None" by (simp add: zero_filled_def)
  ultimately show ?thesis
    using assms nn c
    by (simp add: stats_step_def sqlite3_aggregate_context_def i inserted_def initial_fields
        added_def)
qed

text \<open>What one callback does to the window and to the running sums.\<close>

lemma stats_step_sums:
  assumes "ctx_inv ctx" "stats_step env argv ctx = (r, ctx')"
  shows "same_window (data_of ctx') (data_of ctx)
         \<or> (\<exists>v. numeric_value (hd argv) = Some v
                \<and> live (data_of ctx') = live (data_of ctx) @ [v]
                \<and> sum_val (data_of ctx') = dadd (sum_val (data_of ctx)) v
                \<and> sum_sq (data_of ctx') = dadd (sum_sq (data_of ctx)) (dmul v v))"
  using assms(1)
proof (cases rule: stats_step_cases [of ctx env argv])
  case (untouched r')
  then show ?thesis using assms(2) by (simp add: same_window_def)
next
  case (prepared r' d1)
  then show ?thesis using assms(2) by (simp add: same_layout_def)
next
  case (stored arg v d2)
  from stored(6) obtain xs where xs: "values_buf d2 = Some xs" by auto
  note ip = inserted_props [OF stored(5) xs stored(7), of v]
  have "ctx' = Context (inserted v d2)" using stored(4) assms(2) by simp
  then show ?thesis using ip stored(1,3,8) by (simp add: same_window_def)
qed

lemma stats_inverse_sums:
  assumes "ctx_inv ctx" "stats_inverse argv ctx = (r, ctx')"
  shows "ctx' = ctx
         \<or> (live (data_of ctx) \<noteq> []
            \<and> live (data_of ctx') = tl (live (data_of ctx))
            \<and> sum_val (data_of ctx') = dsub (sum_val (data_of ctx)) (hd (live (data_of ctx)))
            \<and> sum_sq (data_of ctx')
                = dsub (sum_sq (data_of ctx))
                       (dmul (hd (live (data_of ctx))) (hd (live (data_of ctx)))))"
  using assms(1)
proof (cases rule: stats_inverse_cases [of ctx argv])
  case no_change
  then show ?thesis using assms(2) by simp
next
  case no_argument
  then show ?thesis using assms(2) by simp
next
  case (removed d arg rest)
  from removed(5) obtain xs where xs: "values_buf d = Some xs" by auto
  note ep = evicted_props [OF removed(6) xs removed(4)]
  have "length (live d) = count d" using removed(6) by (rule length_live)
  then have "live d \<noteq> []" using removed(4) by auto
  moreover have "ctx' = Context (evicted d)" using removed(7) assms(2) by simp
  ultimately show ?thesis using ep removed(1) by simp
qed

lemma exact_sum_append: "exact_sum (vs @ [Fin q]) = exact_sum vs + q"
  by (simp add: exact_sum_def)

lemma exact_sum_squares_append: "exact_sum_squares (vs @ [Fin q]) = exact_sum_squares vs + q * q"
  by (simp add: exact_sum_squares_def)

lemma exact_sum_tl: "vs \<noteq> [] \<Longrightarrow> hd vs = Fin q \<Longrightarrow> exact_sum (tl vs) = exact_sum vs - q"
  by (cases vs) (simp_all add: exact_sum_def)

lemma exact_sum_squares_tl:
  "vs \<noteq> [] \<Longrightarrow> hd vs = Fin q \<Longrightarrow> exact_sum_squares (tl vs) = exact_sum_squares vs - q * q"
  by (cases vs) (simp_all add: exact_sum_squares_def)

lemma exact_throughout_now: "exact_throughout cs ctx \<Longrightarrow> exact_values (live (data_of ctx))"
  by (cases cs) simp_all

lemma exact_sums_call:
  assumes "ctx_inv ctx" "exact_sums ctx" "exact_values (live (data_of ctx))"
    and "call_result c ctx = (r, ctx')" "exact_values (live (data_of ctx'))"
  shows "exact_sums ctx'"
proof (cases c)
  case (Step env argv)
  then have s: "stats_step env argv ctx = (r, ctx')" using assms(4) by simp
  from stats_step_sums [OF assms(1) s] show ?thesis
  proof
    assume "same_window (data_of ctx') (data_of ctx)"
    then show ?thesis using assms(2) by (simp add: exact_sums_def same_window_def)
  next
    assume "\<exists>v. numeric_value (hd argv) = Some v
                \<and> live (data_of ctx') = live (data_of ctx) @ [v]
                \<and> sum_val (data_of ctx') = dadd (sum_val (data_of ctx)) v
                \<and> sum_sq (data_of ctx') = dadd (sum_sq (data_of ctx)) (dmul v v)"
    then obtain v where v: "live (data_of ctx') = live (data_of ctx) @ [v]"
      "sum_val (data_of ctx') = dadd (sum_val (data_of ctx)) v"
      "sum_sq (data_of ctx') = dadd (sum_sq (data_of ctx)) (dmul v v)"
      by blast
    from assms(5) have "is_finite v" by (simp add: exact_values_def v(1))
    then obtain q where q: "v = Fin q" by (cases v) simp_all
    from assms(5) have e: "rnd (q * q) = Fin (q * q)"
      "rnd (exact_sum (live (data_of ctx)) + q) = Fin (exact_sum (live (data_of ctx)) + q)"
      "rnd (exact_sum_squares (live (data_of ctx)) + q * q)
       = Fin (exact_sum_squares (live (data_of ctx)) + q * q)"
      by (simp_all add: exact_values_def v(1) q representable_def exact_sum_append
          exact_sum_squares_append)
    from assms(2) have s0: "sum_val (data_of ctx) = Fin (exact_sum (live (data_of ctx)))"
      "sum_sq (data_of ctx) = Fin (exact_sum_squares (live (data_of ctx)))"
      by (simp_all add: exact_sums_def)
    show ?thesis
      unfolding exact_sums_def v s0 q
      by (simp add: e exact_sum_append exact_sum_squares_append)
  qed
next
  case (Inverse argv)
  then have s: "stats_inverse argv ctx = (r, ctx')" using assms(4) by simp
  from stats_inverse_sums [OF assms(1) s] show ?thesis
  proof
    assume "ctx' = ctx"
    then show ?thesis using assms(2) by simp
  next
    assume a: "live (data_of ctx) \<noteq> []
            \<and> live (data_of ctx') = tl (live (data_of ctx))
            \<and> sum_val (data_of ctx') = dsub (sum_val (data_of ctx)) (hd (live (data_of ctx)))
            \<and> sum_sq (data_of ctx')
                = dsub (sum_sq (data_of ctx))
                       (dmul (hd (live (data_of ctx))) (hd (live (data_of ctx))))"
    then have ne: "live (data_of ctx) \<noteq> []" by simp
    then have "is_finite (hd (live (data_of ctx)))"
      "representable (value_of (hd (live (data_of ctx))) * value_of (hd (live (data_of ctx))))"
      using assms(3) by (cases "live (data_of ctx)"; simp add: exact_values_def)+
    then obtain q where q: "hd (live (data_of ctx)) = Fin q" and qq: "rnd (q * q) = Fin (q * q)"
      by (cases "hd (live (data_of ctx))") (simp_all add: representable_def)
    note t = exact_sum_tl [OF ne q] exact_sum_squares_tl [OF ne q]
    from assms(5) have e: "rnd (exact_sum (live (data_of ctx)) - q)
        = Fin (exact_sum (live (data_of ctx)) - q)"
      "rnd (exact_sum_squares (live (data_of ctx)) - q * q)
       = Fin (exact_sum_squares (live (data_of ctx)) - q * q)"
      using a by (simp_all add: exact_values_def representable_def t)
    from assms(2) have s0: "sum_val (data_of ctx) = Fin (exact_sum (live (data_of ctx)))"
      "sum_sq (data_of ctx) = Fin (exact_sum_squares (live (data_of ctx)))"
      by (simp_all add: exact_sums_def)
    from a have l: "live (data_of ctx') = tl (live (data_of ctx))"
      and sv: "sum_val (data_of ctx') = dsub (sum_val (data_of ctx)) (Fin q)"
      and sq: "sum_sq (data_of ctx') = dsub (sum_sq (data_of ctx)) (dmul (Fin q) (Fin q))"
      by (simp_all add: q)
    show ?thesis
      unfolding exact_sums_def l sv sq s0 t
      by (simp add: qq e)
  qed
qed

lemma exact_sums_run:
  assumes "ctx_inv ctx" "exact_sums ctx" "exact_throughout calls ctx"
    and "run calls ctx = Some ctx'"
  shows "exact_sums ctx'"
  using assms
proof (induction calls arbitrary: ctx)
  case Nil
  then show ?case by simp
next
  case (Cons c cs)
  obtain r ctx1 where cr: "call_result c ctx = (r, ctx1)" by (cases "call_result c ctx")
  with Cons.prems(4) have run: "run cs ctx1 = Some ctx'" by (cases r) simp_all
  have i: "ctx_inv ctx1" using call_result_inv [OF Cons.prems(1) cr] .
  from Cons.prems(3) cr have now: "exact_values (live (data_of ctx))"
    and later: "exact_throughout cs ctx1"
    by simp_all
  have "exact_sums ctx1"
    using Cons.prems(1,2) now cr exact_throughout_now [OF later] by (rule exact_sums_call)
  then show ?case using Cons.IH [OF i _ later run] by simp
qed

lemma exact_sums_fresh: "exact_sums NoContext"
  by (simp add: exact_sums_def zero_filled_def live_def exact_sum_def exact_sum_squares_def)

text \<open>Integers whose squares add up to at most \<open>2 ^ 53\<close> form an exact window.\<close>

lemma square_le_squares:
  "i \<in> set ls \<Longrightarrow> i * i \<le> sum_list (map (\<lambda>i. i * i) (ls :: int list))"
proof (induction ls)
  case (Cons j ls)
  from Cons.prems consider "i = j" | "i \<in> set ls" by auto
  then show ?case
  proof cases
    case 1
    then show ?thesis using squares_nonneg [of ls] by simp
  next
    case 2
    from Cons.IH [OF 2] have "i * i \<le> sum_list (map (\<lambda>i. i * i) ls)" .
    moreover have "0 \<le> j * j" by simp
    ultimately have "i * i \<le> j * j + sum_list (map (\<lambda>i. i * i) ls)" by linarith
    then show ?thesis by simp
  qed
qed simp

lemma integer_window_exact:
  assumes "sum_list (map (\<lambda>i. i * i) ls) \<le> 2 ^ 53"
  shows "exact_values (map (\<lambda>i. Fin (of_int i)) ls)"
proof -
  have f: "list_all is_finite (map (\<lambda>i. Fin (of_int i)) ls)" by (induction ls) simp_all
  have "representable (of_int i * of_int i)" if "i \<in> set ls" for i
  proof -
    have "0 \<le> i * i" by simp
    moreover have "i * i \<le> 2 ^ 53" using square_le_squares [OF that] assms by linarith
    ultimately have "\<bar>i * i\<bar> \<le> 2 ^ 53" by simp
    from rnd_of_int [OF this] show ?thesis by (simp add: representable_def)
  qed
  then have s: "list_all (\<lambda>v. representable (value_of v * value_of v))
                  (map (\<lambda>i. Fin (of_int i)) ls)"
    by (simp add: list_all_iff)
  have "\<bar>sum_list ls\<bar> \<le> 2 ^ 53" using abs_sum_le_squares [of ls] assms by linarith
  from rnd_of_int [OF this] have a: "representable (exact_sum (map (\<lambda>i. Fin (of_int i)) ls))"
    by (simp add: representable_def exact_sum_ints)
  have "\<bar>sum_list (map (\<lambda>i. i * i) ls)\<bar> \<le> 2 ^ 53" using squares_nonneg [of ls] assms by simp
  from rnd_of_int [OF this]
  have b: "representable (exact_sum_squares (map (\<lambda>i. Fin (of_int i)) ls))"
    by (simp add: representable_def exact_sum_squares_ints)
  show ?thesis using f s a b by (simp add: exact_values_def)
qed




lemma after_run_contractedI:
  "run_contracted calls NoContext = Some (Context d) \<Longrightarrow> after_run_contracted f calls = Some (f d)"
  by (simp add: after_run_contracted_def)

text \<open>Rounding does not cross a power of two.\<close>

lemma rnd_bounded_pos:
  assumes "0 < x" "x \<le> 2 powi k" "- 1074 \<le> k" "k \<le> 1023"
  shows "\<exists>r. rnd x = Fin r \<and> 0 \<le> r \<and> r \<le> 2 powi k"
  using assms(1)
proof (rule rnd_shape)
  fix n e
  assume e: "e = max (floor_log2 x) (- 1022)" and n0: "0 \<le> n"
    and n: "n = round_even (x / 2 powi (e - 52))"
    and r: "rnd x = (if (2::rat) powi 1024 \<le> of_int n * 2 powi (e - 52) then PInf
              else Fin (of_int n * 2 powi (e - 52)))"
  have ek: "e - 52 \<le> k"
  proof (rule ccontr)
    assume "\<not> e - 52 \<le> k"
    then have lt: "k < e - 52" by simp
    with assms(3) have "- 1022 < e" by simp
    then have "floor_log2 x = e" using e by (simp add: max_def split: if_splits)
    then have "2 powi e \<le> x" using floor_log2_bounds(1) [OF assms(1)] by simp
    with assms(2) have "(2::rat) powi e \<le> 2 powi k" by linarith
    then have "e \<le> k" by (simp only: p2_le_iff)
    with lt show False by simp
  qed
  define j where "j = nat (k - (e - 52))"
  have pj: "(2::rat) powi (k - (e - 52)) = of_int (2 ^ j)"
    unfolding j_def using ek by (intro p2_nat) simp
  have "x / 2 powi (e - 52) \<le> 2 powi k / 2 powi (e - 52)"
    using assms(2) by (intro divide_right_mono) simp_all
  also have "\<dots> = 2 powi (k - (e - 52))" by (simp only: p2_diff)
  also note pj
  finally have "n \<le> 2 ^ j" unfolding n by (rule round_even_le)
  then have "(of_int n :: rat) \<le> of_int (2 ^ j)" by (simp only: of_int_le_iff)
  then have "of_int n * 2 powi (e - 52) \<le> of_int (2 ^ j) * (2::rat) powi (e - 52)"
    by (intro mult_right_mono) simp_all
  also have "of_int (2 ^ j) * (2::rat) powi (e - 52) = 2 powi (k - (e - 52)) * 2 powi (e - 52)"
    by (simp only: pj)
  also have "\<dots> = 2 powi k" by (rule p2_mult_eq) simp
  finally have le: "of_int n * 2 powi (e - 52) \<le> (2::rat) powi k" .
  have "(2::rat) powi k < 2 powi 1024" using assms(4) by (intro p2_strict_mono) simp
  with le have "\<not> (2::rat) powi 1024 \<le> of_int n * 2 powi (e - 52)" by linarith
  moreover have "0 \<le> of_int n * (2::rat) powi (e - 52)" using n0 by simp
  ultimately show ?thesis using r le by simp
qed

lemma rnd_bounded:
  assumes "\<bar>x\<bar> \<le> 2 powi k" "- 1074 \<le> k" "k \<le> 1023"
  shows "\<exists>r. rnd x = Fin r \<and> \<bar>r\<bar> \<le> 2 powi k"
proof -
  consider "x = 0" | "0 < x" | "0 < - x" by linarith
  then show ?thesis
  proof cases
    case 1
    then show ?thesis by simp
  next
    case 2
    with assms(1) have "x \<le> 2 powi k" by simp
    from rnd_bounded_pos [OF 2 this assms(2,3)] show ?thesis by auto
  next
    case 3
    with assms(1) have "- x \<le> 2 powi k" by simp
    from rnd_bounded_pos [OF 3 this assms(2,3)]
    obtain r where r: "rnd (- x) = Fin r" "0 \<le> r" "r \<le> 2 powi k" by blast
    from r(1) have "rnd x = Fin (- r)" by (cases "rnd x") (simp_all add: rnd_minus)
    then show ?thesis using r(2,3) by simp
  qed
qed

text \<open>A converted count is within a factor of two of the count.\<close>

lemma double_of_size_near:
  assumes "1 \<le> n" "n < 2 ^ 64"
  shows "\<exists>r. double_of_size n = Fin r \<and> 1 \<le> r \<and> of_nat n \<le> 2 * r"
proof -
  from double_of_size_range [OF assms] obtain r where r: "double_of_size n = Fin r" "1 \<le> r"
    by blast
  define f where "f = floor_log2 (of_nat n)"
  have pos: "0 < (of_nat n :: rat)" using assms(1) by simp
  note b = floor_log2_bounds [OF pos, folded f_def]
  have "(2::rat) powi 0 \<le> of_nat n" using assms(1) by simp
  with b(2) have "(2::rat) powi 0 < 2 powi (f + 1)" by linarith
  then have "0 < f + 1" by (simp only: p2_less_iff)
  then have f0: "- 1022 \<le> f" by simp
  from rnd_lower [OF b(1) f0] r(1) have "2 powi f \<le> r" by (simp add: double_of_size_def)
  moreover have "(2::rat) powi (f + 1) = 2 * 2 powi f" by (simp add: power_int_add)
  ultimately have "of_nat n \<le> 2 * r" using b(2) by linarith
  then show ?thesis using r by blast
qed

lemma size_ratio_bounded:
  assumes "2 \<le> n" "n < 2 ^ 64"
  shows "\<exists>r. ddiv (double_of_size n) (double_of_size (n - 1)) = Fin r \<and> \<bar>r\<bar> \<le> 2 powi 2"
proof -
  define f where "f = floor_log2 (of_nat n)"
  have pos: "0 < (of_nat n :: rat)" using assms(1) by simp
  note b = floor_log2_bounds [OF pos, folded f_def]
  have "(2::rat) powi 1 \<le> of_nat n" using assms(1) by simp
  with b(2) have "(2::rat) powi 1 < 2 powi (f + 1)" by linarith
  then have "1 < f + 1" by (simp only: p2_less_iff)
  then have f1: "1 \<le> f" by simp
  have "(of_nat n :: rat) < of_nat (2 ^ 64)" using assms(2) by (simp only: of_nat_less_iff)
  then have "(of_nat n :: rat) < 2 powi 64" by simp
  with b(1) have "(2::rat) powi f < 2 powi 64" by linarith
  then have f64: "f < 64" by (simp only: p2_less_iff)
  have "of_nat n \<le> (2::rat) powi (f + 1)" using b(2) by simp
  from rnd_bounded_pos [OF pos this] f1 f64
  obtain a where a: "double_of_size n = Fin a" "0 \<le> a" "a \<le> 2 powi (f + 1)"
    by (auto simp: double_of_size_def)
  have two: "(2::rat) powi f = 2 * 2 powi (f - 1)"
    using p2_mult_eq [of 1 "f - 1" f] by simp
  have "(2::rat) * 2 powi (f - 1) \<le> of_nat n" using b(1) two by simp
  moreover have "(of_nat n :: rat) \<le> 2 * of_nat (n - 1)"
  proof -
    have "n \<le> 2 * (n - 1)" using assms(1) by simp
    then have "(of_nat n :: rat) \<le> of_nat (2 * (n - 1))" by (simp only: of_nat_le_iff)
    then show ?thesis by simp
  qed
  ultimately have lo: "(2::rat) powi (f - 1) \<le> of_nat (n - 1)" by linarith
  have fm: "- 1022 \<le> f - 1" using f1 by simp
  have "1 \<le> n - 1" "n - 1 < 2 ^ 64" using assms by simp_all
  from double_of_size_range [OF this] obtain c where c1: "double_of_size (n - 1) = Fin c"
    by blast
  then have "rnd (of_nat (n - 1)) = Fin c" by (simp only: double_of_size_def)
  with rnd_lower [OF lo fm] have "2 powi (f - 1) \<le> c" by simp
  note c = c1 this
  have cpos: "0 < c" using c(2) zero_less_power_int [of "2::rat" "f - 1"] by linarith
  have "a / c \<le> 2 powi (f + 1) / 2 powi (f - 1)"
    using a(2,3) c(2) by (intro frac_le) simp_all
  also have "\<dots> = 2 powi 2" by (simp only: flip: p2_diff) simp
  finally have "\<bar>a / c\<bar> \<le> 2 powi 2" using a(2) cpos by simp
  from rnd_bounded [OF this] obtain r where "rnd (a / c) = Fin r" "\<bar>r\<bar> \<le> 2 powi 2" by auto
  then show ?thesis unfolding a(1) c(1) using cpos by simp
qed

lemma ddiv_by_size_bounded:
  assumes "1 \<le> r" "of_nat n \<le> 2 * r" "\<bar>x\<bar> \<le> of_nat n * 2 powi k"
    and "- 1075 \<le> k" "k < 1023"
  shows "\<exists>y. ddiv (Fin x) (Fin r) = Fin y \<and> \<bar>y\<bar> \<le> 2 powi (k + 1)"
proof -
  have "of_nat n * (2::rat) powi k \<le> (2 * r) * 2 powi k"
    using assms(2) by (intro mult_right_mono) simp_all
  with assms(3) have "\<bar>x\<bar> \<le> (2 * r) * 2 powi k" by (rule order_trans)
  also have "(2 * r) * 2 powi k = (2 * 2 powi k) * r" by simp
  finally have "\<bar>x\<bar> / r \<le> 2 * 2 powi k" using assms(1) by (simp only: pos_divide_le_eq)
  moreover have "(2::rat) * 2 powi k = 2 powi (k + 1)" by (simp add: power_int_add)
  moreover have "\<bar>r\<bar> = r" using assms(1) by simp
  then have "\<bar>x / r\<bar> = \<bar>x\<bar> / r" by (simp only: abs_divide)
  ultimately have "\<bar>x / r\<bar> \<le> 2 powi (k + 1)" by (simp only:)
  from rnd_bounded [OF this] assms(4,5)
  obtain y where "rnd (x / r) = Fin y" "\<bar>y\<bar> \<le> 2 powi (k + 1)" by auto
  then show ?thesis using assms(1) by simp
qed

text \<open>
  The variances of sums whose means are of moderate size: no operation overflows.
\<close>

lemma population_bounded:
  fixes s q :: rat and a c :: int
  assumes n: "1 \<le> n" "n < 2 ^ 64"
    and e: "0 \<le> a" "2 * a + 2 \<le> c" "c < 1023"
    and s: "\<bar>s\<bar> \<le> of_nat n * 2 powi a" and q: "\<bar>q\<bar> \<le> of_nat n * 2 powi (c - 1)"
  shows "\<exists>p. dsub (ddiv (Fin q) (double_of_size n))
                   (dmul (ddiv (Fin s) (double_of_size n)) (ddiv (Fin s) (double_of_size n)))
              = Fin p \<and> \<bar>p\<bar> \<le> 2 powi (c + 1)"
proof -
  from double_of_size_near [OF n] obtain r
    where r: "double_of_size n = Fin r" "1 \<le> r" "of_nat n \<le> 2 * r" by blast
  from ddiv_by_size_bounded [OF r(2,3) s] e
  obtain m where m: "ddiv (Fin s) (Fin r) = Fin m" "\<bar>m\<bar> \<le> 2 powi (a + 1)" by auto
  from ddiv_by_size_bounded [OF r(2,3) q] e
  obtain b where b: "ddiv (Fin q) (Fin r) = Fin b" "\<bar>b\<bar> \<le> 2 powi c" by auto
  have "\<bar>m * m\<bar> = \<bar>m\<bar> * \<bar>m\<bar>" by (rule abs_mult)
  also have "\<dots> \<le> 2 powi (a + 1) * 2 powi (a + 1)" using m(2) by (intro mult_mono) simp_all
  also have "\<dots> = 2 powi (2 * a + 2)" by (rule p2_mult_eq) simp
  also have "\<dots> \<le> 2 powi c" using e(2) by (rule p2_mono)
  finally have "\<bar>m * m\<bar> \<le> 2 powi c" .
  from rnd_bounded [OF this] e
  obtain m2 where m2: "rnd (m * m) = Fin m2" "\<bar>m2\<bar> \<le> 2 powi c" by auto
  have "(2::rat) powi (c + 1) = 2 * 2 powi c" by (simp add: power_int_add)
  then have "\<bar>b - m2\<bar> \<le> 2 powi (c + 1)" using b(2) m2(2) by linarith
  from rnd_bounded [OF this] e
  obtain p where "rnd (b - m2) = Fin p" "\<bar>p\<bar> \<le> 2 powi (c + 1)" by auto
  then show ?thesis unfolding r(1) m(1) b(1) by (simp add: m2(1))
qed

lemma sample_bounded:
  fixes p :: rat and c :: int
  assumes "2 \<le> n" "n < 2 ^ 64" "\<bar>p\<bar> \<le> 2 powi (c + 1)" "0 \<le> c" "c + 3 \<le> 1023"
  shows "is_finite (dmul (Fin p) (ddiv (double_of_size n) (double_of_size (n - 1))))"
proof -
  from size_ratio_bounded [OF assms(1,2)]
  obtain r where r: "ddiv (double_of_size n) (double_of_size (n - 1)) = Fin r" "\<bar>r\<bar> \<le> 2 powi 2"
    by blast
  have "\<bar>p * r\<bar> = \<bar>p\<bar> * \<bar>r\<bar>" by (rule abs_mult)
  also have "\<dots> \<le> 2 powi (c + 1) * 2 powi 2" using assms(3) r(2) by (intro mult_mono) simp_all
  also have "\<dots> = 2 powi (c + 3)" by (rule p2_mult_eq) simp
  finally have "\<bar>p * r\<bar> \<le> 2 powi (c + 3)" .
  from rnd_bounded [OF this] assms(4,5)
  obtain y where "rnd (p * r) = Fin y" by auto
  then show ?thesis unfolding r(1) by simp
qed

lemma stats_step_stores:
  assumes "buffer_inv d" "values_buf d = Some xs" "count d < capacity d"
    and "numeric_value arg = Some v"
  shows "stats_step env [arg] (Context d) = (Done, Context (inserted v d))"
proof -
  have nn: "arg \<noteq> SqlNull" using assms(4) by (cases arg) simp_all
  have "add_to_circular_buffer d v = Some (added v xs d)"
    using assms(1,2,3) by (rule add_to_circular_buffer_inv)
  then show ?thesis
    using assms(2,3,4) nn
    by (simp add: stats_step_def sqlite3_aggregate_context_def inserted_def added_def)
qed

lemma stats_step_grows:
  assumes "buffer_inv d" "values_buf d = Some xs" "count d = capacity d"
    and "capacity d * 2 * SIZEOF_DOUBLE \<le> PTRDIFF_MAX"
    and "grow_alloc env = Alloc_gives g" "numeric_value arg = Some v"
  shows "stats_step env [arg] (Context d) = (Done, Context (inserted v (grown g d)))"
proof -
  note i = buffer_inv_SomeD [OF assms(1,2)]
  have nn: "arg \<noteq> SqlNull" using assms(6) by (cases arg) simp_all
  have gr: "grow_stats_buffer (grow_alloc env) d = Some (SQLITE_OK, grown g d)"
    unfolding assms(5) using assms(1,2,4) by (rule grow_stats_buffer_gives)
  have i': "buffer_inv (grown g d)" using assms(1,2,4) by (rule buffer_inv_grown)
  have ys: "values_buf (grown g d) = Some (live d @ map g [count d..<capacity d * 2])"
    by (simp add: grown_def)
  have c': "count (grown g d) < capacity (grown g d)" using i(2) assms(3) by (simp add: grown_def)
  have "add_to_circular_buffer (grown g d) v
        = Some (added v (live d @ map g [count d..<capacity d * 2]) (grown g d))"
    using i' ys c' by (rule add_to_circular_buffer_inv)
  then show ?thesis
    using assms(2,3,6) nn gr
    by (simp add: stats_step_def sqlite3_aggregate_context_def inserted_def ys added_def)
qed

lemma insert_step:
  assumes "roomy ctx" "count (data_of ctx) < 2 ^ 56" "numeric_value arg = Some v"
  shows "\<exists>d'. stats_step (plentiful g) [arg] ctx = (Done, Context d') \<and> roomy (Context d')
              \<and> live d' = live (data_of ctx) @ [v] \<and> count d' = count (data_of ctx) + 1"
proof (cases ctx)
  case NoContext
  have c0: "count (initial g) < capacity (initial g)"
    by (simp add: initial_fields INITIAL_CAPACITY_def)
  note ip = inserted_props [OF buffer_inv_initial initial_fields(1) c0, of v]
  have "stats_step (plentiful g) [arg] NoContext = (Done, Context (inserted v (initial g)))"
    unfolding plentiful_def using assms(3) by (rule first_step_initialises)
  moreover have "roomy (Context (inserted v (initial g)))"
    using ip by (simp add: initial_fields)
  moreover have "live (inserted v (initial g)) = live zero_filled @ [v]"
    using ip(2) by (simp add: initial_fields live_def zero_filled_def)
  moreover have "count (inserted v (initial g)) = count zero_filled + 1"
    using ip(3) by (simp add: initial_fields zero_filled_def)
  ultimately show ?thesis by (simp add: NoContext)
next
  case (Context d)
  with assms(1) have i: "buffer_inv d" and cap: "capacity d \<le> max INITIAL_CAPACITY (2 * count d)"
    by simp_all
  from assms(1) Context obtain xs where xs: "values_buf d = Some xs" by auto
  note b = buffer_inv_SomeD [OF i xs]
  from assms(2) Context have cnt: "count d < 2 ^ 56" by simp
  show ?thesis
  proof (cases "count d < capacity d")
    case True
    note ip = inserted_props [OF i xs True, of v]
    have "stats_step (plentiful g) [arg] (Context d) = (Done, Context (inserted v d))"
      using i xs True assms(3) by (rule stats_step_stores)
    moreover have "roomy (Context (inserted v d))" using ip cap by simp
    ultimately show ?thesis using ip(2,3) by (simp add: Context)
  next
    case False
    with b(4) have full: "count d = capacity d" by simp
    have "capacity d * 2 * SIZEOF_DOUBLE \<le> PTRDIFF_MAX"
      using cnt full by (simp add: SIZEOF_DOUBLE_def PTRDIFF_MAX_def)
    note lg = this
    have i': "buffer_inv (grown g d)" using i xs lg by (rule buffer_inv_grown)
    have ys: "values_buf (grown g d) = Some (live d @ map g [count d..<capacity d * 2])"
      by (simp add: grown_def)
    have c': "count (grown g d) < capacity (grown g d)" using b(2) full by (simp add: grown_def)
    note ip = inserted_props [OF i' ys c', of v]
    have "stats_step (plentiful g) [arg] (Context d) = (Done, Context (inserted v (grown g d)))"
      using i xs full lg _ assms(3) by (rule stats_step_grows) (simp add: plentiful_def)
    moreover have "roomy (Context (inserted v (grown g d)))"
      using ip full by (simp add: grown_def)
    moreover have "live (inserted v (grown g d)) = live d @ [v]"
      using ip(2) live_grown [OF i xs, of g] by simp
    moreover have "count (inserted v (grown g d)) = count d + 1"
      using ip(3) by (simp add: grown_def)
    ultimately show ?thesis by (simp add: Context)
  qed
qed

lemma inserts_in_order:
  assumes "roomy ctx" "count (data_of ctx) + length vs \<le> 2 ^ 56"
  shows "\<exists>ctx'. run (map (\<lambda>x. Step (plentiful g) [SqlFloat x]) vs) ctx = Some ctx' \<and> roomy ctx'
                \<and> live (data_of ctx') = live (data_of ctx) @ vs
                \<and> count (data_of ctx') = count (data_of ctx) + length vs"
  using assms
proof (induction vs arbitrary: ctx)
  case Nil
  then show ?case by simp
next
  case (Cons x vs)
  from Cons.prems(2) have "count (data_of ctx) < 2 ^ 56" by simp
  from insert_step [OF Cons.prems(1) this, of "SqlFloat x" x g]
  obtain d' where d': "stats_step (plentiful g) [SqlFloat x] ctx = (Done, Context d')"
    "roomy (Context d')" "live d' = live (data_of ctx) @ [x]"
    "count d' = count (data_of ctx) + 1"
    by auto
  have "count (data_of (Context d')) + length vs \<le> 2 ^ 56" using Cons.prems(2) d'(4) by simp
  from Cons.IH [OF d'(2) this]
  obtain ctx' where c: "run (map (\<lambda>x. Step (plentiful g) [SqlFloat x]) vs) (Context d') = Some ctx'"
    "roomy ctx'" "live (data_of ctx') = live (data_of (Context d')) @ vs"
    "count (data_of ctx') = count (data_of (Context d')) + length vs"
    by blast
  have "run (map (\<lambda>x. Step (plentiful g) [SqlFloat x]) (x # vs)) ctx = Some ctx'"
    using d'(1) c(1) by simp
  then show ?case using c(2,3,4) d'(3,4) by simp
qed

lemma roomy_evict_all:
  assumes "roomy ctx" "n \<le> count (data_of ctx)"
  shows "evict_all n (data_of ctx) = Some (take n (live (data_of ctx)))"
proof (cases ctx)
  case NoContext
  then show ?thesis using assms(2) by (simp add: zero_filled_def)
next
  case (Context d)
  with assms(1) obtain xs where "buffer_inv d" "values_buf d = Some xs" by auto
  from evict_all_live [OF this] assms(2) Context show ?thesis by simp
qed

lemma roomy_capacity: "roomy ctx \<Longrightarrow> count (data_of ctx) \<le> capacity (data_of ctx)"
proof (cases ctx)
  case (Context d)
  assume "roomy ctx"
  with Context obtain xs where "buffer_inv d" "values_buf d = Some xs" by auto
  from buffer_inv_SomeD(4) [OF this] Context show ?thesis by simp
qed (simp add: zero_filled_def)

text \<open>Any number of insertions into a fresh aggregation, with every allocation succeeding.\<close>

lemma fresh_inserts_in_order:
  assumes "length vs \<le> 2 ^ 56"
  shows "\<exists>ctx'. run (map (\<lambda>x. Step (plentiful g) [SqlFloat x]) vs) NoContext = Some ctx'
                \<and> live (data_of ctx') = vs \<and> count (data_of ctx') = length vs
                \<and> length vs \<le> capacity (data_of ctx')
                \<and> evict_all (length vs) (data_of ctx') = Some vs"
proof -
  have "count (data_of NoContext) + length vs \<le> 2 ^ 56" using assms by (simp add: zero_filled_def)
  from inserts_in_order [OF _ this, of g]
  obtain ctx' where c: "run (map (\<lambda>x. Step (plentiful g) [SqlFloat x]) vs) NoContext = Some ctx'"
    "roomy ctx'" "live (data_of ctx') = vs" "count (data_of ctx') = length vs"
    by (auto simp: zero_filled_def live_def)
  from roomy_evict_all [OF c(2), of "length vs"] c(3,4)
  have "evict_all (length vs) (data_of ctx') = Some vs" by simp
  moreover have "length vs \<le> capacity (data_of ctx')" using roomy_capacity [OF c(2)] c(4) by simp
  ultimately show ?thesis using c by blast
qed

text \<open>
  The roundings that occur when \<open>2 ^ 458\<close> and \<open>2 ^ 512 - 2 ^ 459\<close> are inserted and
  \<open>2 ^ 458\<close> is evicted.
\<close>

lemma big_1: "rnd (2 ^ 458) = Fin (2 ^ 458)"
  by (rule rnd_exact [of _ 1 458]) simp_all

lemma big_2: "rnd (2 ^ 458 * 2 ^ 458) = Fin (2 ^ 916)"
  using rnd_exact [of "2 ^ 916" 1 916] by (simp flip: power_add)

lemma big_2b: "rnd (2 ^ 916) = Fin (2 ^ 916)"
  by (rule rnd_exact [of _ 1 916]) simp_all

lemma big_3: "rnd (2 ^ 458 + (2 ^ 512 - 2 ^ 459)) = Fin (2 ^ 512)"
  using rnd_eval [of 511 "2 ^ 458 + (2 ^ 512 - 2 ^ 459)" "2 ^ 53"] by simp

lemma big_4: "rnd ((2 ^ 512 - 2 ^ 459) * (2 ^ 512 - 2 ^ 459)) = Fin (2 ^ 1024 - 2 ^ 972)"
  using rnd_eval [of 1023 "(2 ^ 512 - 2 ^ 459) * (2 ^ 512 - 2 ^ 459)" "2 ^ 53 - 2"] by simp

lemma big_5: "rnd (2 ^ 916 + (2 ^ 1024 - 2 ^ 972)) = Fin (2 ^ 1024 - 2 ^ 972)"
  using rnd_eval [of 1023 "2 ^ 916 + (2 ^ 1024 - 2 ^ 972)" "2 ^ 53 - 2"] by simp

lemma big_6: "rnd (2 ^ 512 - 2 ^ 458) = Fin (2 ^ 512)"
  using rnd_eval [of 511 "2 ^ 512 - 2 ^ 458" "2 ^ 53"] by simp

lemma big_7: "rnd (2 ^ 1024 - 2 ^ 972 - 2 ^ 916) = Fin (2 ^ 1024 - 2 ^ 972)"
  using rnd_eval [of 1023 "2 ^ 1024 - 2 ^ 972 - 2 ^ 916" "2 ^ 53 - 2"] by simp

lemma big_8: "rnd (2 ^ 512) = Fin (2 ^ 512)"
  by (rule rnd_exact [of _ 1 512]) simp_all

lemma big_9: "rnd (2 ^ 512 * 2 ^ 512) = PInf"
proof -
  have "rnd (2 ^ 1024) = (if (2::rat) powi 1024 \<le> of_int (2 ^ 52) * 2 powi (max 1024 (- 1022) - 52)
                  then PInf else Fin (of_int (2 ^ 52) * 2 powi (max 1024 (- 1022) - 52)))"
    by (rule rnd_pos_eval) simp_all
  then show ?thesis by (simp flip: power_add)
qed

lemma big_10: "rnd (2 ^ 1024 - 2 ^ 972) = Fin (2 ^ 1024 - 2 ^ 972)"
  using rnd_exact [of "2 ^ 1024 - 2 ^ 972" "2 ^ 53 - 2" 971] by simp

lemma big_11: "rnd (2 ^ 512 - 2 ^ 459) = Fin (2 ^ 512 - 2 ^ 459)"
  using rnd_exact [of "2 ^ 512 - 2 ^ 459" "2 ^ 53 - 1" 459] by simp

lemma two_inserts_one_evict_run:
  assumes "numeric_value arg1 = Some a" "numeric_value arg2 = Some b" "leaving \<noteq> SqlNull"
  shows "run [Step (plentiful g) [arg1], Step (plentiful g) [arg2], Inverse (leaving # rest)]
           NoContext
         = Some (Context \<lparr>values_buf = Some ((map g [0..<100])[0 := a, 1 := b]), count = 1,
                    capacity = 100, head = 1, tail = 2,
                    sum_val = dsub (dadd (dadd (Fin 0) a) b) a,
                    sum_sq = dsub (dadd (dadd (Fin 0) (dmul a a)) (dmul b b)) (dmul a a)\<rparr>)"
proof -
  from assms(1,2) have "arg1 \<noteq> SqlNull" "arg2 \<noteq> SqlNull" by (cases arg1; cases arg2; simp)+
  then show ?thesis using assms by (simp add: eval_defs)
qed

lemma exact_throughout_inserts:
  assumes "roomy ctx" "count (data_of ctx) + length vs \<le> 2 ^ 56"
    and "exact_prefixes (live (data_of ctx)) vs"
  shows "exact_throughout (map (\<lambda>x. Step (plentiful g) [SqlFloat x]) vs) ctx"
  using assms
proof (induction vs arbitrary: ctx)
  case Nil
  then show ?case by simp
next
  case (Cons x vs)
  from Cons.prems(2) have "count (data_of ctx) < 2 ^ 56" by simp
  from insert_step [OF Cons.prems(1) this, of "SqlFloat x" x g]
  obtain d' where d': "stats_step (plentiful g) [SqlFloat x] ctx = (Done, Context d')"
    "roomy (Context d')" "live d' = live (data_of ctx) @ [x]"
    "count d' = count (data_of ctx) + 1"
    by auto
  have "count (data_of (Context d')) + length vs \<le> 2 ^ 56" using Cons.prems(2) d'(4) by simp
  moreover have "exact_prefixes (live (data_of (Context d'))) vs"
    using Cons.prems(3) d'(3) by simp
  ultimately have "exact_throughout (map (\<lambda>x. Step (plentiful g) [SqlFloat x]) vs) (Context d')"
    using Cons.IH [OF d'(2)] by blast
  then show ?case using Cons.prems(3) d'(1) by simp
qed

lemma fresh_inserts_exact:
  assumes "length vs \<le> 2 ^ 56" "exact_prefixes [] vs" "vs \<noteq> []"
  shows "exact_throughout (map (\<lambda>x. Step (plentiful g) [SqlFloat x]) vs) NoContext"
    "after_run live (map (\<lambda>x. Step (plentiful g) [SqlFloat x]) vs) = Some vs"
    "after_run sum_val (map (\<lambda>x. Step (plentiful g) [SqlFloat x]) vs) = Some (Fin (exact_sum vs))"
    "after_run sum_sq (map (\<lambda>x. Step (plentiful g) [SqlFloat x]) vs)
     = Some (Fin (exact_sum_squares vs))"
proof -
  have z: "live (data_of NoContext) = []" "count (data_of NoContext) = 0"
    "live zero_filled = []" "count zero_filled = 0"
    by (simp_all add: zero_filled_def live_def)
  show t: "exact_throughout (map (\<lambda>x. Step (plentiful g) [SqlFloat x]) vs) NoContext"
    using assms(1,2) by (intro exact_throughout_inserts) (simp_all add: z)
  from fresh_inserts_in_order [OF assms(1), of g]
  obtain ctx' where c: "run (map (\<lambda>x. Step (plentiful g) [SqlFloat x]) vs) NoContext = Some ctx'"
    "live (data_of ctx') = vs"
    by blast
  have "ctx' \<noteq> NoContext" using c(2) assms(3) z(1) by auto
  then obtain d where d: "ctx' = Context d" by (cases ctx') simp_all
  have "exact_sums ctx'" using exact_sums_run [OF _ exact_sums_fresh t c(1)] by simp
  then have "sum_val d = Fin (exact_sum vs)" "sum_sq d = Fin (exact_sum_squares vs)"
    using c(2) by (simp_all add: exact_sums_def d)
  then show "after_run live (map (\<lambda>x. Step (plentiful g) [SqlFloat x]) vs) = Some vs"
    "after_run sum_val (map (\<lambda>x. Step (plentiful g) [SqlFloat x]) vs) = Some (Fin (exact_sum vs))"
    "after_run sum_sq (map (\<lambda>x. Step (plentiful g) [SqlFloat x]) vs)
     = Some (Fin (exact_sum_squares vs))"
    using c unfolding d by (simp_all add: after_runI)
qed

lemmas eval_contracted_defs = stats_step_contracted_def stats_inverse_contracted_def

text \<open>The contracted variances are never NaN on finite sums, and finite on moderate ones.\<close>

lemma population_contracted_not_nan:
  assumes "1 \<le> n" "n < 2 ^ 64" "is_finite s" "is_double s" "is_finite ss" "is_double ss"
  shows "fused_sub (ddiv ss (double_of_size n)) (ddiv s (double_of_size n))
           (ddiv s (double_of_size n)) \<noteq> NaN"
proof -
  from assms(3,5) obtain x y where xy: "s = Fin x" "ss = Fin y"
    by (cases s; cases ss) simp_all
  from double_of_size_range [OF assms(1,2)]
  obtain r where r: "double_of_size n = Fin r" "1 \<le> r" by blast
  have "is_finite (ddiv ss (double_of_size n))" "is_finite (ddiv s (double_of_size n))"
    unfolding r xy using assms(4,6) r(2) by (simp_all only: xy ddiv_by_size_finite)
  then obtain a m where "ddiv ss (double_of_size n) = Fin a" "ddiv s (double_of_size n) = Fin m"
    by (cases "ddiv ss (double_of_size n)"; cases "ddiv s (double_of_size n)") simp_all
  then show ?thesis by simp
qed

lemma population_contracted_bounded:
  fixes s q :: rat and a c :: int
  assumes n: "1 \<le> n" "n < 2 ^ 64"
    and e: "0 \<le> a" "2 * a + 2 \<le> c" "c < 1023"
    and s: "\<bar>s\<bar> \<le> of_nat n * 2 powi a" and q: "\<bar>q\<bar> \<le> of_nat n * 2 powi (c - 1)"
  shows "\<exists>p. fused_sub (ddiv (Fin q) (double_of_size n)) (ddiv (Fin s) (double_of_size n))
                 (ddiv (Fin s) (double_of_size n))
              = Fin p \<and> \<bar>p\<bar> \<le> 2 powi (c + 1)"
proof -
  from double_of_size_near [OF n] obtain r
    where r: "double_of_size n = Fin r" "1 \<le> r" "of_nat n \<le> 2 * r" by blast
  from ddiv_by_size_bounded [OF r(2,3) s] e
  obtain m where m: "ddiv (Fin s) (Fin r) = Fin m" "\<bar>m\<bar> \<le> 2 powi (a + 1)" by auto
  from ddiv_by_size_bounded [OF r(2,3) q] e
  obtain b where b: "ddiv (Fin q) (Fin r) = Fin b" "\<bar>b\<bar> \<le> 2 powi c" by auto
  have "\<bar>m * m\<bar> = \<bar>m\<bar> * \<bar>m\<bar>" by (rule abs_mult)
  also have "\<dots> \<le> 2 powi (a + 1) * 2 powi (a + 1)" using m(2) by (intro mult_mono) simp_all
  also have "\<dots> = 2 powi (2 * a + 2)" by (rule p2_mult_eq) simp
  also have "\<dots> \<le> 2 powi c" using e(2) by (rule p2_mono)
  finally have mm: "\<bar>m * m\<bar> \<le> 2 powi c" .
  have "(2::rat) powi (c + 1) = 2 * 2 powi c" by (simp add: power_int_add)
  then have "\<bar>b - m * m\<bar> \<le> 2 powi (c + 1)" using b(2) mm by linarith
  from rnd_bounded [OF this] e
  obtain p where "rnd (b - m * m) = Fin p" "\<bar>p\<bar> \<le> 2 powi (c + 1)" by auto
  then show ?thesis unfolding r(1) m(1) b(1) by simp
qed

text \<open>The roundings of the contracted evaluation when 0.1 is inserted three times.\<close>

lemma tenth_f2: "rnd (25961484292674142105820153732137 / 1298074214633706907132624082305024) = Fin (1441151880758559 / 72057594037927936)"
  using rnd_eval [of "-6" "(25961484292674142105820153732137 / 1298074214633706907132624082305024)" "5764607523034236"] by simp

lemma tenth_f3: "rnd (38942226439011213699162185882665 / 1298074214633706907132624082305024) = Fin (4323455642275677 / 144115188075855872)"
  using rnd_eval [of "-6" "(38942226439011213699162185882665 / 1298074214633706907132624082305024)" "8646911284551354"] by simp

lemma tenth_c1: "rnd (- (10088063165309913 / 5192296858534827628530496329220096)) = Fin (- (1261007895663739 / 649037107316853453566312041152512))"
  using rnd_eval [of "-59" "(10088063165309913 / 5192296858534827628530496329220096)" "5044031582654956"] rnd_minus [of "(10088063165309913 / 5192296858534827628530496329220096)"] by simp

lemma tenth_c2: "rnd (- (3783023686991217 / 1298074214633706907132624082305024)) = Fin (- (3783023686991217 / 1298074214633706907132624082305024))"
  using rnd_eval [of "-59" "(3783023686991217 / 1298074214633706907132624082305024)" "7566047373982434"] rnd_minus [of "(3783023686991217 / 1298074214633706907132624082305024)"] by simp

lemmas tenth_contracted_facts = tenth_f2 tenth_f3 tenth_c1 tenth_c2

text \<open>The contracted roundings of the run with \<open>2 ^ 458\<close> and \<open>2 ^ 512 - 2 ^ 459\<close>.\<close>

lemma big_c1:
  "rnd (2 ^ 916 + (2 ^ 512 - 2 ^ 459) * (2 ^ 512 - 2 ^ 459)) = Fin (2 ^ 1024 - 2 ^ 972)"
  using rnd_eval [of 1023 "2 ^ 916 + (2 ^ 512 - 2 ^ 459) * (2 ^ 512 - 2 ^ 459)" "2 ^ 53 - 2"]
  by simp

lemma big_c2: "rnd (2 ^ 1024 - 2 ^ 972 - 2 ^ 458 * 2 ^ 458) = Fin (2 ^ 1024 - 2 ^ 972)"
  using rnd_eval [of 1023 "2 ^ 1024 - 2 ^ 972 - 2 ^ 458 * 2 ^ 458" "2 ^ 53 - 2"] by simp

lemma big_c3: "rnd (2 ^ 1024 - 2 ^ 972 - 2 ^ 512 * 2 ^ 512) = Fin (- (2 ^ 972))"
proof -
  have "(2::rat) ^ 1024 - 2 ^ 972 - 2 ^ 512 * 2 ^ 512 = - (2 ^ 972)" by simp
  moreover have "rnd (- (2 ^ 972)) = Fin (- (2 ^ 972))"
    by (rule rnd_exact [of _ "- 1" 972]) simp_all
  ultimately show ?thesis by (simp only:)
qed

lemma two_inserts_one_evict_run_contracted:
  assumes "numeric_value arg1 = Some a" "numeric_value arg2 = Some b" "leaving \<noteq> SqlNull"
  shows "run_contracted
           [Step (plentiful g) [arg1], Step (plentiful g) [arg2], Inverse (leaving # rest)]
           NoContext
         = Some (Context \<lparr>values_buf = Some ((map g [0..<100])[0 := a, 1 := b]), count = 1,
                    capacity = 100, head = 1, tail = 2,
                    sum_val = dsub (dadd (dadd (Fin 0) a) b) a,
                    sum_sq = fused_sub (fused_add (fused_add (Fin 0) a a) b b) a a\<rparr>)"
proof -
  from assms(1,2) have "arg1 \<noteq> SqlNull" "arg2 \<noteq> SqlNull" by (cases arg1; cases arg2; simp)+
  then show ?thesis using assms by (simp add: eval_defs eval_contracted_defs)
qed

text \<open>Two insertions, in either evaluation.\<close>

lemma two_inserts_run:
  assumes "numeric_value arg1 = Some a" "numeric_value arg2 = Some b"
  shows "run [Step (plentiful g) [arg1], Step (plentiful g) [arg2]] NoContext
         = Some (Context \<lparr>values_buf = Some ((map g [0..<100])[0 := a, 1 := b]), count = 2,
                    capacity = 100, head = 0, tail = 2,
                    sum_val = dadd (dadd (Fin 0) a) b,
                    sum_sq = dadd (dadd (Fin 0) (dmul a a)) (dmul b b)\<rparr>)"
    and "run_contracted [Step (plentiful g) [arg1], Step (plentiful g) [arg2]] NoContext
         = Some (Context \<lparr>values_buf = Some ((map g [0..<100])[0 := a, 1 := b]), count = 2,
                    capacity = 100, head = 0, tail = 2,
                    sum_val = dadd (dadd (Fin 0) a) b,
                    sum_sq = fused_add (fused_add (Fin 0) a a) b b\<rparr>)"
proof -
  from assms(1,2) have "arg1 \<noteq> SqlNull" "arg2 \<noteq> SqlNull" by (cases arg1; cases arg2; simp)+
  then show "run [Step (plentiful g) [arg1], Step (plentiful g) [arg2]] NoContext
         = Some (Context \<lparr>values_buf = Some ((map g [0..<100])[0 := a, 1 := b]), count = 2,
                    capacity = 100, head = 0, tail = 2,
                    sum_val = dadd (dadd (Fin 0) a) b,
                    sum_sq = dadd (dadd (Fin 0) (dmul a a)) (dmul b b)\<rparr>)"
    "run_contracted [Step (plentiful g) [arg1], Step (plentiful g) [arg2]] NoContext
         = Some (Context \<lparr>values_buf = Some ((map g [0..<100])[0 := a, 1 := b]), count = 2,
                    capacity = 100, head = 0, tail = 2,
                    sum_val = dadd (dadd (Fin 0) a) b,
                    sum_sq = fused_add (fused_add (Fin 0) a a) b b\<rparr>)"
    using assms by (simp_all add: eval_defs eval_contracted_defs)
qed

lemma huge_1: "rnd (2 ^ 1023) = Fin (2 ^ 1023)"
  by (rule rnd_exact [of _ 1 1023]) simp_all

lemma huge_2: "rnd (2 ^ 1023 + 2 ^ 1023) = PInf"
proof -
  have "rnd (2 ^ 1024) = (if (2::rat) powi 1024 \<le> of_int (2 ^ 52) * 2 powi (max 1024 (- 1022) - 52)
                  then PInf else Fin (of_int (2 ^ 52) * 2 powi (max 1024 (- 1022) - 52)))"
    by (rule rnd_pos_eval) simp_all
  then have "rnd (2 ^ 1024) = PInf" by simp
  moreover have "(2::rat) ^ 1023 + 2 ^ 1023 = 2 ^ 1024" by simp
  ultimately show ?thesis by (simp only:)
qed

lemma huge_3: "rnd (2 ^ 1023 * 2 ^ 1023) = PInf"
proof -
  have "rnd (2 ^ 2046) = (if (2::rat) powi 1024 \<le> of_int (2 ^ 52) * 2 powi (max 2046 (- 1022) - 52)
                  then PInf else Fin (of_int (2 ^ 52) * 2 powi (max 2046 (- 1022) - 52)))"
    by (rule rnd_pos_eval) simp_all
  then show ?thesis by (simp flip: power_add)
qed









section \<open>The running sums\<close>



text \<open>In particular, integers whose squares add up to at most \<open>2 ^ 53\<close> form such a window.\<close>

lemma integer_values_exact:
  "sum_list (map (\<lambda>i. i * i) ls) \<le> 2 ^ 53 \<Longrightarrow> exact_values (map (\<lambda>i. Fin (of_int i)) ls)"
  by (rule integer_window_exact)

text \<open>
  So do the ten values of the README's table when they arrive as REAL: inserted in order
  they give the sums 186 and 3784.
\<close>

lemma readme_table_sums:
  "exact_throughout
     (map (\<lambda>x. Step (plentiful unset) [SqlFloat x])
        [Fin 10, Fin 12, Fin 15, Fin 13, Fin 18, Fin 20, Fin 22, Fin 25, Fin 23, Fin 28])
     NoContext
   \<and> after_run sum_val
     (map (\<lambda>x. Step (plentiful unset) [SqlFloat x])
        [Fin 10, Fin 12, Fin 15, Fin 13, Fin 18, Fin 20, Fin 22, Fin 25, Fin 23, Fin 28])
     = Some (Fin 186)
   \<and> after_run sum_sq
     (map (\<lambda>x. Step (plentiful unset) [SqlFloat x])
        [Fin 10, Fin 12, Fin 15, Fin 13, Fin 18, Fin 20, Fin 22, Fin 25, Fin 23, Fin 28])
     = Some (Fin 3784)"
proof -
  let ?vs = "[Fin 10, Fin 12, Fin 15, Fin 13, Fin 18, Fin 20, Fin 22, Fin 25, Fin 23, Fin 28]"
  have e: "exact_prefixes [] ?vs"
    by (simp add: exact_values_def representable_def exact_sum_def exact_sum_squares_def)
  have v: "exact_sum ?vs = 186" "exact_sum_squares ?vs = 3784"
    by (simp_all add: exact_sum_def exact_sum_squares_def)
  have "length ?vs \<le> 2 ^ 56" "?vs \<noteq> []" by simp_all
  from fresh_inserts_exact(1,3,4) [OF this(1) e this(2), of unset] show ?thesis
    by (simp only: v simp_thms)
qed


section \<open>The variance formulas\<close>

text \<open>
  C2. \<open>calculate_variance_sample\<close> returns NaN when \<open>count < 2\<close>, and otherwise the
  population variance of the running aggregates, \<open>sum_sq / count - mean * mean\<close> with
  \<open>mean = sum / count\<close>, multiplied by \<open>count / (count - 1)\<close>: the value of
  \<open>calculate_variance_population\<close> with Bessel's correction.
\<close>

theorem calculate_variance_sample_spec:
  "calculate_variance_sample d = spec_variance_sample (sum_val d) (sum_sq d) (count d)
   \<and> calculate_variance_sample d =
       (if count d < 2 then NaN
        else dmul (dsub (ddiv (sum_sq d) (double_of_size (count d)))
                        (dmul (ddiv (sum_val d) (double_of_size (count d)))
                              (ddiv (sum_val d) (double_of_size (count d)))))
                  (ddiv (double_of_size (count d)) (double_of_size (count d - 1))))
   \<and> calculate_variance_sample d =
       (if count d < 2 then NaN
        else dmul (calculate_variance_population d)
                  (ddiv (double_of_size (count d)) (double_of_size (count d - 1))))"
  by (simp add: calculate_variance_sample_def calculate_variance_population_def
      spec_variance_sample_def MIN_COUNT_SAMPLE_def MIN_COUNT_POPULATION_def Let_def)

text \<open>
  C3. \<open>calculate_variance_population\<close> returns NaN when \<open>count < 1\<close>, and otherwise
  \<open>sum_sq / count - (sum / count) * (sum / count)\<close>.
\<close>

theorem calculate_variance_population_spec:
  "calculate_variance_population d
     = spec_variance_population (sum_val d) (sum_sq d) (count d)
   \<and> calculate_variance_population d =
       (if count d < 1 then NaN
        else dsub (ddiv (sum_sq d) (double_of_size (count d)))
                  (dmul (ddiv (sum_val d) (double_of_size (count d)))
                        (ddiv (sum_val d) (double_of_size (count d)))))"
  by (simp add: calculate_variance_population_def spec_variance_population_def
      MIN_COUNT_POPULATION_def Let_def)

text \<open>
  The ten values of the README's table, inserted in order: the population variance is the
  double nearest to 32.44 and the sample variance the double nearest to 36.044.
\<close>

lemma readme_table_variances:
  "after_run calculate_variance_population
     (map (\<lambda>i. Step (plentiful unset) [SqlInteger i]) [10, 12, 15, 13, 18, 20, 22, 25, 23, 28])
     = Some (Fin (285345257640427 / 8796093022208))
   \<and> after_run calculate_variance_sample
     (map (\<lambda>i. Step (plentiful unset) [SqlInteger i]) [10, 12, 15, 13, 18, 20, 22, 25, 23, 28])
     = Some (Fin (2536402290137129 / 70368744177664))"
proof -
  have "\<exists>xs. run (map (\<lambda>i. Step (plentiful unset) [SqlInteger i])
                    [10, 12, 15, 13, 18, 20, 22, 25, 23, 28]) NoContext
          = Some (Context \<lparr>values_buf = Some xs, count = 10, capacity = 100, head = 0,
                    tail = 10, sum_val = Fin 186, sum_sq = Fin 3784\<rparr>)"
    by (simp add: eval_defs)
  then obtain xs where r: "run (map (\<lambda>i. Step (plentiful unset) [SqlInteger i])
                    [10, 12, 15, 13, 18, 20, 22, 25, 23, 28]) NoContext
          = Some (Context \<lparr>values_buf = Some xs, count = 10, capacity = 100, head = 0,
                    tail = 10, sum_val = Fin 186, sum_sq = Fin 3784\<rparr>)"
    by blast
  show ?thesis
    unfolding after_runI [OF r]
    by (simp add: calculate_variance_population_def calculate_variance_sample_def
        MIN_COUNT_POPULATION_def MIN_COUNT_SAMPLE_def double_of_size_def ten_facts)
qed

section \<open>Growth\<close>

text \<open>
  C4. When \<open>stats_step\<close> gets a value for a full block (\<open>count = capacity\<close>) and the
  allocation succeeds, \<open>grow_stats_buffer\<close> runs first: the new buffer has twice the
  capacity and holds the live values, oldest first, from index 0; \<open>head = 0\<close>,
  \<open>tail = count\<close>; \<open>get_circular_value\<close> gives the same value at every logical
  index before and after; any number of removals return the same values, in the same
  order, from the grown block as from the old one; and the insert then appends the new
  value, which is removed last. The grown block satisfies the invariant again, so this
  holds after any number of growths: when up to \<open>2 ^ 56\<close> values are inserted into a
  fresh aggregation and every allocation succeeds, the live values are the inserted
  values in insertion order, the buffer has grown to hold them, and as many removals
  return them in that order.

  A block with \<open>capacity = 0\<close> is the zero-filled one of a fresh aggregation. It has no
  buffer and is not grown but initialised: \<open>init_window_stats_data\<close> allocates a buffer
  of \<open>INITIAL_CAPACITY\<close> elements for it, and the first value is stored at index 0.
\<close>

theorem growth_preserves_order:
  assumes "buffer_inv d" "values_buf d = Some xs" "count d = capacity d"
    and "grow_stats_buffer (grow_alloc env) d = Some (SQLITE_OK, d')"
    and "numeric_value arg = Some v"
  shows "capacity d' = 2 * capacity d
       \<and> (\<exists>ys. values_buf d' = Some ys \<and> length ys = 2 * capacity d
                \<and> take (count d) ys = live d)
       \<and> head d' = 0 \<and> tail d' = count d \<and> count d' = count d
       \<and> sum_val d' = sum_val d \<and> sum_sq d' = sum_sq d
       \<and> (\<forall>i<count d. get_circular_value d i = Some (live d ! i)
                       \<and> get_circular_value d' i = Some (live d ! i))
       \<and> live d' = live d \<and> buffer_inv d'
       \<and> remove_from_circular_buffer d' = Some (hd (live d), removed d')
       \<and> live (removed d') = tl (live d)
       \<and> (\<forall>n\<le>count d. evict_all n d' = Some (take n (live d))
                       \<and> evict_all n d = Some (take n (live d)))
       \<and> stats_step env [arg] (Context d) = (Done, Context (inserted v d'))
       \<and> live (inserted v d') = live d @ [v]
       \<and> evict_all (count d + 1) (inserted v d') = Some (live d @ [v])
       \<and> capacity zero_filled = 0 \<and> values_buf zero_filled = None
       \<and> init_window_stats_data (Alloc_gives g0) zero_filled = (SQLITE_OK, initial g0)
       \<and> values_buf (initial g0) = Some (map g0 [0..<INITIAL_CAPACITY])
       \<and> capacity (initial g0) = INITIAL_CAPACITY \<and> count (initial g0) = 0
       \<and> head (initial g0) = 0 \<and> tail (initial g0) = 0
       \<and> stats_step \<lparr>context_alloc = True, init_alloc = Alloc_gives g0, grow_alloc = a0\<rparr>
            [arg] NoContext
          = (Done, Context (inserted v (initial g0)))
       \<and> capacity (inserted v (initial g0)) = INITIAL_CAPACITY
       \<and> live (inserted v (initial g0)) = [v]
       \<and> evict_all 1 (inserted v (initial g0)) = Some [v]
       \<and> (length vs \<le> 2 ^ 56 \<longrightarrow>
            (\<exists>ctx'. run (map (\<lambda>x. Step (plentiful g0) [SqlFloat x]) vs) NoContext = Some ctx'
                    \<and> live (data_of ctx') = vs \<and> count (data_of ctx') = length vs
                    \<and> length vs \<le> capacity (data_of ctx')
                    \<and> evict_all (length vs) (data_of ctx') = Some vs))"
proof -
  note i = buffer_inv_SomeD [OF assms(1,2)]
  from grow_stats_buffer_cases [OF assms(1,2), of "grow_alloc env"] assms(4)
  obtain g where g: "capacity d * 2 * SIZEOF_DOUBLE \<le> PTRDIFF_MAX" and d': "d' = grown g d"
    by auto
  have len: "length (live d) = count d" by (simp add: live_def assms(2))
  have i': "buffer_inv d'" unfolding d' using assms(1,2) g by (rule buffer_inv_grown)
  have l': "live d' = live d" unfolding d' using assms(1,2) by (rule live_grown)
  have ys: "values_buf d' = Some (live d @ map g [count d..<capacity d * 2])"
    by (simp add: d' grown_def)
  have pos: "0 < count d'" "count d' = count d" using i(2) assms(3) by (simp_all add: d' grown_def)
  have old: "get_circular_value d j = Some (live d ! j)" if "j < count d" for j
    using get_circular_value_inv [OF assms(1,2), of j] that i(4)
    by (simp add: live_def assms(2))
  have new: "get_circular_value d' j = Some (live d ! j)" if "j < count d" for j
  proof -
    have "j \<le> capacity d'" "j < count d'" using that i(4) by (simp_all add: d' grown_def)
    then have "get_circular_value d' j = Some (live d' ! j)"
      using get_circular_value_inv [OF i' ys, of j] by (simp add: live_def ys)
    then show ?thesis by (simp only: l')
  qed
  have rem: "remove_from_circular_buffer d' = Some (hd (live d), removed d')"
    using remove_from_circular_buffer_inv [OF i' ys pos(1)] by (simp only: l')
  have rl: "live (removed d') = tl (live d)"
    using live_removed [OF i' ys pos(1)] by (simp only: l')
  have ev: "evict_all n d' = Some (take n (live d)) \<and> evict_all n d = Some (take n (live d))"
    if "n \<le> count d" for n
    using evict_all_live [OF i' ys, of n] evict_all_live [OF assms(1,2), of n] that pos(2)
    by (simp add: l')
  have f: "capacity d' = 2 * capacity d" "head d' = 0" "tail d' = count d" "count d' = count d"
    "sum_val d' = sum_val d" "sum_sq d' = sum_sq d"
    by (simp_all add: d' grown_def)
  have e: "\<exists>ys. values_buf d' = Some ys \<and> length ys = 2 * capacity d
                \<and> take (count d) ys = live d"
    using ys len i(4) by simp
  have c': "count d' < capacity d'" using i(2) assms(3) by (simp add: d' grown_def)
  have s: "stats_step env [arg] (Context d) = (Done, Context (inserted v d'))"
  proof -
    have nn: "arg \<noteq> SqlNull" using assms(5) by (cases arg) simp_all
    have "add_to_circular_buffer d' v
          = Some (added v (live d @ map g [count d..<capacity d * 2]) d')"
      using i' ys c' by (rule add_to_circular_buffer_inv)
    then show ?thesis
      using assms(2,3,4,5) nn
      by (simp add: stats_step_def sqlite3_aggregate_context_def inserted_def ys added_def)
  qed
  note ip = inserted_props [OF i' ys c', of v]
  have li: "live (inserted v d') = live d @ [v]" using ip(2) by (simp only: l')
  have ei: "evict_all (count d + 1) (inserted v d') = Some (live d @ [v])"
  proof -
    from ip(6) obtain zs where zs: "values_buf (inserted v d') = Some zs" by auto
    have "evict_all (count d + 1) (inserted v d')
          = Some (take (count d + 1) (live (inserted v d')))"
      using ip(1) zs by (rule evict_all_live) (simp add: ip(3) pos(2))
    then show ?thesis using len by (simp add: li)
  qed
  have z: "capacity zero_filled = 0" "values_buf zero_filled = None"
    by (simp_all add: zero_filled_def)
  have n0: "init_window_stats_data (Alloc_gives g0) zero_filled = (SQLITE_OK, initial g0)"
    by (simp add: init_window_stats_data_gives initial_def zero_filled_def)
  have c0: "count (initial g0) < capacity (initial g0)"
    by (simp add: initial_fields INITIAL_CAPACITY_def)
  note ip0 = inserted_props [OF buffer_inv_initial initial_fields(1) c0, of v]
  have l0: "live (inserted v (initial g0)) = [v]" using ip0(2) by (simp add: initial_fields)
  have e0: "evict_all 1 (inserted v (initial g0)) = Some [v]"
  proof -
    from ip0(6) obtain zs where zs: "values_buf (inserted v (initial g0)) = Some zs" by auto
    have "evict_all 1 (inserted v (initial g0)) = Some (take 1 (live (inserted v (initial g0))))"
      using ip0(1) zs by (rule evict_all_live) (simp add: ip0(3))
    then show ?thesis by (simp add: l0)
  qed
  have k0: "capacity (inserted v (initial g0)) = INITIAL_CAPACITY"
    using ip0(7) by (simp add: initial_fields)
  have "(\<forall>i<count d. get_circular_value d i = Some (live d ! i)
                       \<and> get_circular_value d' i = Some (live d ! i))"
    using old new by simp
  moreover have "(\<forall>n\<le>count d. evict_all n d' = Some (take n (live d))
                       \<and> evict_all n d = Some (take n (live d)))"
    using ev by simp
  moreover have "length vs \<le> 2 ^ 56 \<longrightarrow>
            (\<exists>ctx'. run (map (\<lambda>x. Step (plentiful g0) [SqlFloat x]) vs) NoContext = Some ctx'
                    \<and> live (data_of ctx') = vs \<and> count (data_of ctx') = length vs
                    \<and> length vs \<le> capacity (data_of ctx')
                    \<and> evict_all (length vs) (data_of ctx') = Some vs)"
    using fresh_inserts_in_order [of vs g0] by blast
  ultimately show ?thesis
    using f e i' l' rem rl s li ei z n0 initial_fields(1,2,3,4,5) [of g0]
      first_step_initialises [OF assms(5), of g0 a0] k0 l0 e0
    by (simp only: simp_thms)
qed

theorem growth_preserves_order_witness:
  "buffer_inv \<lparr>values_buf = Some [Fin 9, Fin 4, Fin 7], count = 3, capacity = 3, head = 2,
                tail = 2, sum_val = Fin 20, sum_sq = Fin 146\<rparr>
   \<and> live \<lparr>values_buf = Some [Fin 9, Fin 4, Fin 7], count = 3, capacity = 3, head = 2,
                tail = 2, sum_val = Fin 20, sum_sq = Fin 146\<rparr> = [Fin 7, Fin 9, Fin 4]
   \<and> grow_stats_buffer (grow_alloc (plentiful unset))
        \<lparr>values_buf = Some [Fin 9, Fin 4, Fin 7], count = 3, capacity = 3, head = 2,
          tail = 2, sum_val = Fin 20, sum_sq = Fin 146\<rparr>
      = Some (SQLITE_OK, \<lparr>values_buf = Some [Fin 7, Fin 9, Fin 4, NaN, NaN, NaN], count = 3,
                           capacity = 6, head = 0, tail = 3, sum_val = Fin 20,
                           sum_sq = Fin 146\<rparr>)
   \<and> live \<lparr>values_buf = Some [Fin 7, Fin 9, Fin 4, NaN, NaN, NaN], count = 3,
             capacity = 6, head = 0, tail = 3, sum_val = Fin 20, sum_sq = Fin 146\<rparr>
      = [Fin 7, Fin 9, Fin 4]
   \<and> remove_from_circular_buffer
        \<lparr>values_buf = Some [Fin 7, Fin 9, Fin 4, NaN, NaN, NaN], count = 3,
          capacity = 6, head = 0, tail = 3, sum_val = Fin 20, sum_sq = Fin 146\<rparr>
      = Some (Fin 7, \<lparr>values_buf = Some [Fin 7, Fin 9, Fin 4, NaN, NaN, NaN], count = 2,
                       capacity = 6, head = 1, tail = 3, sum_val = Fin 20,
                       sum_sq = Fin 146\<rparr>)
   \<and> evict_all 3 \<lparr>values_buf = Some [Fin 7, Fin 9, Fin 4, NaN, NaN, NaN], count = 3,
                   capacity = 6, head = 0, tail = 3, sum_val = Fin 20, sum_sq = Fin 146\<rparr>
      = Some [Fin 7, Fin 9, Fin 4]
   \<and> evict_all 3 \<lparr>values_buf = Some [Fin 9, Fin 4, Fin 7], count = 3, capacity = 3, head = 2,
                   tail = 2, sum_val = Fin 20, sum_sq = Fin 146\<rparr>
      = Some [Fin 7, Fin 9, Fin 4]
   \<and> numeric_value (SqlInteger 5) = Some (Fin 5)
   \<and> stats_step (plentiful unset) [SqlInteger 5]
        (Context \<lparr>values_buf = Some [Fin 9, Fin 4, Fin 7], count = 3, capacity = 3, head = 2,
                   tail = 2, sum_val = Fin 20, sum_sq = Fin 146\<rparr>)
      = (Done, Context \<lparr>values_buf = Some [Fin 7, Fin 9, Fin 4, Fin 5, NaN, NaN], count = 4,
                         capacity = 6, head = 0, tail = 4, sum_val = Fin 25,
                         sum_sq = Fin 171\<rparr>)
   \<and> evict_all 4 \<lparr>values_buf = Some [Fin 7, Fin 9, Fin 4, Fin 5, NaN, NaN], count = 4,
                   capacity = 6, head = 0, tail = 4, sum_val = Fin 25, sum_sq = Fin 171\<rparr>
      = Some [Fin 7, Fin 9, Fin 4, Fin 5]
   \<and> stats_step (plentiful unset) [SqlInteger 5] NoContext
      = (Done, Context \<lparr>values_buf = Some ((map unset [0..<100])[0 := Fin 5]), count = 1,
                         capacity = 100, head = 0, tail = 1, sum_val = Fin 5,
                         sum_sq = Fin 25\<rparr>)
   \<and> length (map (\<lambda>i. Fin (of_nat i)) [0..<250]) = 250
   \<and> after_run live
        (map (\<lambda>x. Step (plentiful unset) [SqlFloat x]) (map (\<lambda>i. Fin (of_nat i)) [0..<250]))
      = Some (map (\<lambda>i. Fin (of_nat i)) [0..<250])
   \<and> after_run (\<lambda>d. 250 \<le> capacity d)
        (map (\<lambda>x. Step (plentiful unset) [SqlFloat x]) (map (\<lambda>i. Fin (of_nat i)) [0..<250]))
      = Some True
   \<and> after_run (evict_all 250)
        (map (\<lambda>x. Step (plentiful unset) [SqlFloat x]) (map (\<lambda>i. Fin (of_nat i)) [0..<250]))
      = Some (Some (map (\<lambda>i. Fin (of_nat i)) [0..<250]))"
proof -
  let ?d = "\<lparr>values_buf = Some [Fin 9, Fin 4, Fin 7], count = 3, capacity = 3, head = 2,
                tail = 2, sum_val = Fin 20, sum_sq = Fin 146\<rparr>"
  let ?d' = "\<lparr>values_buf = Some [Fin 7, Fin 9, Fin 4, NaN, NaN, NaN], count = 3,
                           capacity = 6, head = 0, tail = 3, sum_val = Fin 20,
                           sum_sq = Fin 146\<rparr>"
  have u: "[0..<3] = [0, 1, 2]" "[0..<6] = [0, 1, 2, 3, 4, 5]" by (simp_all add: upt_rec)
  have i: "buffer_inv ?d" by (simp add: buffer_inv_def SIZEOF_DOUBLE_def PTRDIFF_MAX_def)
  have v: "values_buf ?d = Some [Fin 9, Fin 4, Fin 7]" "count ?d = capacity ?d" by simp_all
  have l: "live ?d = [Fin 7, Fin 9, Fin 4]" by (simp add: live_def u)
  have g: "grow_stats_buffer (grow_alloc (plentiful unset)) ?d = Some (SQLITE_OK, ?d')"
    by (simp add: grow_stats_buffer_def malloc_def CAPACITY_GROWTH_FACTOR_def SIZE_MOD_def
        SIZEOF_DOUBLE_def PTRDIFF_MAX_def u copy_values.simps get_circular_value_def unset_def
        plentiful_def)
  have n: "numeric_value (SqlInteger 5) = Some (Fin 5)" by (simp add: double_of_int64_def)
  let ?vs = "map (\<lambda>i. Fin (of_nat i)) [0..<250] :: double list"
  note t = growth_preserves_order [OF i v g n, of unset "Alloc_gives unset" ?vs]
  have len: "length ?vs = 250" by simp
  from t have "length ?vs \<le> 2 ^ 56 \<longrightarrow>
            (\<exists>ctx'. run (map (\<lambda>x. Step (plentiful unset) [SqlFloat x]) ?vs) NoContext = Some ctx'
                    \<and> live (data_of ctx') = ?vs \<and> count (data_of ctx') = length ?vs
                    \<and> length ?vs \<le> capacity (data_of ctx')
                    \<and> evict_all (length ?vs) (data_of ctx') = Some ?vs)"
    by blast
  then obtain ctx' where c: "run (map (\<lambda>x. Step (plentiful unset) [SqlFloat x]) ?vs) NoContext
      = Some ctx'"
    "live (data_of ctx') = ?vs" "250 \<le> capacity (data_of ctx')"
    "evict_all 250 (data_of ctx') = Some ?vs"
    unfolding len by auto
  have "ctx' \<noteq> NoContext"
  proof
    assume "ctx' = NoContext"
    with c(3) show False by (simp add: zero_filled_def)
  qed
  then obtain dd where dd: "ctx' = Context dd" by (cases ctx') simp_all
  have many: "after_run live (map (\<lambda>x. Step (plentiful unset) [SqlFloat x]) ?vs) = Some ?vs"
    "after_run (\<lambda>d. 250 \<le> capacity d) (map (\<lambda>x. Step (plentiful unset) [SqlFloat x]) ?vs)
      = Some True"
    "after_run (evict_all 250) (map (\<lambda>x. Step (plentiful unset) [SqlFloat x]) ?vs)
      = Some (Some ?vs)"
    using c unfolding dd by (simp_all only: after_runI data_of.simps simp_thms)
  from t have "\<forall>n\<le>count ?d. evict_all n ?d' = Some (take n (live ?d))
                       \<and> evict_all n ?d = Some (take n (live ?d))"
    by blast
  from this [rule_format, of 3]
  have e3: "evict_all 3 ?d' = Some [Fin 7, Fin 9, Fin 4]"
    "evict_all 3 ?d = Some [Fin 7, Fin 9, Fin 4]"
    by (simp_all add: l)
  from t have "evict_all (count ?d + 1) (inserted (Fin 5) ?d') = Some (live ?d @ [Fin 5])"
    by blast
  then have e4: "evict_all 4 (inserted (Fin 5) ?d') = Some [Fin 7, Fin 9, Fin 4, Fin 5]"
    by (simp add: l)
  from t have "stats_step \<lparr>context_alloc = True, init_alloc = Alloc_gives unset,
                             grow_alloc = Alloc_gives unset\<rparr> [SqlInteger 5] NoContext
          = (Done, Context (inserted (Fin 5) (initial unset)))"
    by blast
  then have s0: "stats_step (plentiful unset) [SqlInteger 5] NoContext
      = (Done, Context \<lparr>values_buf = Some ((map unset [0..<100])[0 := Fin 5]), count = 1,
                         capacity = 100, head = 0, tail = 1, sum_val = Fin 5,
                         sum_sq = Fin 25\<rparr>)"
    by (simp add: plentiful_def inserted_def added_def initial_def zero_filled_def
        INITIAL_CAPACITY_def)
  have ins: "inserted (Fin 5) ?d'
      = \<lparr>values_buf = Some [Fin 7, Fin 9, Fin 4, Fin 5, NaN, NaN], count = 4,
          capacity = 6, head = 0, tail = 4, sum_val = Fin 25, sum_sq = Fin 171\<rparr>"
    by (simp add: inserted_def added_def)
  have "buffer_inv ?d
   \<and> live ?d = [Fin 7, Fin 9, Fin 4]
   \<and> grow_stats_buffer (grow_alloc (plentiful unset)) ?d = Some (SQLITE_OK, ?d')
   \<and> live ?d' = [Fin 7, Fin 9, Fin 4]
   \<and> remove_from_circular_buffer ?d'
      = Some (Fin 7, \<lparr>values_buf = Some [Fin 7, Fin 9, Fin 4, NaN, NaN, NaN], count = 2,
                       capacity = 6, head = 1, tail = 3, sum_val = Fin 20,
                       sum_sq = Fin 146\<rparr>)
   \<and> evict_all 3 ?d' = Some [Fin 7, Fin 9, Fin 4]
   \<and> evict_all 3 ?d = Some [Fin 7, Fin 9, Fin 4]
   \<and> numeric_value (SqlInteger 5) = Some (Fin 5)
   \<and> stats_step (plentiful unset) [SqlInteger 5] (Context ?d)
      = (Done, Context \<lparr>values_buf = Some [Fin 7, Fin 9, Fin 4, Fin 5, NaN, NaN], count = 4,
                         capacity = 6, head = 0, tail = 4, sum_val = Fin 25,
                         sum_sq = Fin 171\<rparr>)
   \<and> evict_all 4 \<lparr>values_buf = Some [Fin 7, Fin 9, Fin 4, Fin 5, NaN, NaN], count = 4,
                   capacity = 6, head = 0, tail = 4, sum_val = Fin 25, sum_sq = Fin 171\<rparr>
      = Some [Fin 7, Fin 9, Fin 4, Fin 5]
   \<and> stats_step (plentiful unset) [SqlInteger 5] NoContext
      = (Done, Context \<lparr>values_buf = Some ((map unset [0..<100])[0 := Fin 5]), count = 1,
                         capacity = 100, head = 0, tail = 1, sum_val = Fin 5,
                         sum_sq = Fin 25\<rparr>)"
    using t i l g n e3 e4 s0 by (simp add: removed_def ins)
  with len many show ?thesis by (simp only: simp_thms)
qed

section \<open>Allocation failure\<close>

text \<open>
  C5. \<open>init_window_stats_data\<close> stores \<open>INITIAL_CAPACITY\<close> in \<open>capacity\<close> before it
  calls \<open>malloc\<close>: when the first allocation fails, the zero-filled block is left with
  \<open>capacity = 100\<close> instead of 0.
\<close>

theorem init_failure_changes_capacity:
  "stats_step \<lparr>context_alloc = True, init_alloc = Alloc_fails, grow_alloc = Alloc_fails\<rparr>
     [SqlFloat (Fin 1)] NoContext
   = (Error_nomem, Context (zero_filled\<lparr>capacity := 100\<rparr>))
   \<and> init_window_stats_data Alloc_fails zero_filled
      = (SQLITE_NOMEM, zero_filled\<lparr>capacity := 100\<rparr>)
   \<and> capacity zero_filled = 0"
  by (simp add: eval_defs)

text \<open>A failed growth, in contrast, changes nothing.\<close>

lemma growth_failure_leaves_state:
  assumes "buffer_inv d" "values_buf d \<noteq> None"
    and "grow_stats_buffer a d = Some (SQLITE_NOMEM, d')"
  shows "d' = d"
proof -
  from assms(2) obtain xs where "values_buf d = Some xs" by auto
  from grow_stats_buffer_cases [OF assms(1) this, of a] assms(3) show ?thesis by auto
qed

section \<open>Eviction from an empty accumulator\<close>

text \<open>
  C6. On an accumulator with \<open>count = 0\<close>, \<open>remove_from_circular_buffer\<close> returns 0.0
  and changes nothing, and \<open>stats_inverse\<close> returns before calling it, whatever the
  argument: no field changes, and nothing is subtracted from \<open>sum\<close> or \<open>sum_sq\<close>.
\<close>

theorem evict_empty_is_noop:
  assumes "count d = 0"
  shows "remove_from_circular_buffer d = Some (Fin 0, d)
         \<and> stats_inverse argv (Context d) = (Done, Context d)"
  using assms
  by (simp add: remove_from_circular_buffer_def stats_inverse_def
      sqlite3_aggregate_context_def)

theorem evict_empty_is_noop_witness:
  "count (zero_filled\<lparr>values_buf := Some [Fin 7, Fin 9], capacity := 2, head := 1,
                        tail := 1, sum_val := Fin 3\<rparr>) = 0
   \<and> remove_from_circular_buffer
        (zero_filled\<lparr>values_buf := Some [Fin 7, Fin 9], capacity := 2, head := 1,
                      tail := 1, sum_val := Fin 3\<rparr>)
      = Some (Fin 0, zero_filled\<lparr>values_buf := Some [Fin 7, Fin 9], capacity := 2, head := 1,
                                   tail := 1, sum_val := Fin 3\<rparr>)
   \<and> stats_inverse [SqlFloat (Fin 5)]
        (Context (zero_filled\<lparr>values_buf := Some [Fin 7, Fin 9], capacity := 2, head := 1,
                               tail := 1, sum_val := Fin 3\<rparr>))
      = (Done, Context (zero_filled\<lparr>values_buf := Some [Fin 7, Fin 9], capacity := 2,
                                     head := 1, tail := 1, sum_val := Fin 3\<rparr>))"
  using evict_empty_is_noop [of "zero_filled\<lparr>values_buf := Some [Fin 7, Fin 9], capacity := 2,
      head := 1, tail := 1, sum_val := Fin 3\<rparr>" "[SqlFloat (Fin 5)]"]
  by (simp add: zero_filled_def)

section \<open>Where the variances are NaN, and where they are finite\<close>

text \<open>
  C7, as amended. While the running sum and sum of squares are finite doubles,
  \<open>calculate_variance_sample\<close> is NaN exactly when \<open>count < 2\<close> and
  \<open>calculate_variance_population\<close> exactly when \<open>count < 1\<close>; from these counts on the
  result is the running-sum formula in double arithmetic. It is a finite double when
  moreover the sums are of moderate size: \<open>\<bar>sum\<bar> \<le> count * 2 powi 509\<close> and
  \<open>\<bar>sum_sq\<bar> \<le> count * 2 powi 1019\<close>. All this holds in both evaluations of the
  formula, with the square of the mean rounded and with the subtraction contracted.
  Nothing is said about the sign of the result: 0.1 inserted three times gives two
  negative variances.
\<close>

theorem variance_nan_iff:
  assumes "count d < 2 ^ 64"
    and "sum_val d = Fin s" "is_double (sum_val d)"
    and "sum_sq d = Fin q" "is_double (sum_sq d)"
  shows "(calculate_variance_sample d = NaN \<longleftrightarrow> count d < 2)
       \<and> (calculate_variance_population d = NaN \<longleftrightarrow> count d < 1)
       \<and> (calculate_variance_sample_contracted d = NaN \<longleftrightarrow> count d < 2)
       \<and> (calculate_variance_population_contracted d = NaN \<longleftrightarrow> count d < 1)
       \<and> (1 \<le> count d \<longrightarrow>
            calculate_variance_population d
            = dsub (ddiv (sum_sq d) (double_of_size (count d)))
                   (dmul (ddiv (sum_val d) (double_of_size (count d)))
                         (ddiv (sum_val d) (double_of_size (count d))))
            \<and> calculate_variance_population_contracted d
            = fused_sub (ddiv (sum_sq d) (double_of_size (count d)))
                   (ddiv (sum_val d) (double_of_size (count d)))
                   (ddiv (sum_val d) (double_of_size (count d))))
       \<and> (2 \<le> count d \<longrightarrow>
            calculate_variance_sample d
            = dmul (calculate_variance_population d)
                   (ddiv (double_of_size (count d)) (double_of_size (count d - 1)))
            \<and> calculate_variance_sample_contracted d
            = dmul (calculate_variance_population_contracted d)
                   (ddiv (double_of_size (count d)) (double_of_size (count d - 1))))
       \<and> (\<bar>s\<bar> \<le> of_nat (count d) * 2 powi 509 \<and> \<bar>q\<bar> \<le> of_nat (count d) * 2 powi 1019 \<longrightarrow>
            (1 \<le> count d \<longrightarrow> is_finite (calculate_variance_population d)
                           \<and> is_finite (calculate_variance_population_contracted d))
            \<and> (2 \<le> count d \<longrightarrow> is_finite (calculate_variance_sample d)
                             \<and> is_finite (calculate_variance_sample_contracted d)))"
proof -
  have fin: "is_finite (sum_val d)" "is_finite (sum_sq d)" by (simp_all add: assms(2,4))
  note a = assms(1) fin(1) assms(3) fin(2) assms(5)
  have pv: "calculate_variance_population d
            = dsub (ddiv (sum_sq d) (double_of_size (count d)))
                   (dmul (ddiv (sum_val d) (double_of_size (count d)))
                         (ddiv (sum_val d) (double_of_size (count d))))"
    and pc: "calculate_variance_population_contracted d
            = fused_sub (ddiv (sum_sq d) (double_of_size (count d)))
                   (ddiv (sum_val d) (double_of_size (count d)))
                   (ddiv (sum_val d) (double_of_size (count d)))"
    if "1 \<le> count d"
    using that
    by (simp_all add: calculate_variance_population_def
        calculate_variance_population_contracted_def MIN_COUNT_POPULATION_def Let_def)
  have sv: "calculate_variance_sample d
            = dmul (calculate_variance_population d)
                   (ddiv (double_of_size (count d)) (double_of_size (count d - 1)))"
    and sc: "calculate_variance_sample_contracted d
            = dmul (calculate_variance_population_contracted d)
                   (ddiv (double_of_size (count d)) (double_of_size (count d - 1)))"
    if "2 \<le> count d"
    using that
    by (simp_all add: calculate_variance_sample_def calculate_variance_population_def
        calculate_variance_sample_contracted_def calculate_variance_population_contracted_def
        MIN_COUNT_SAMPLE_def MIN_COUNT_POPULATION_def Let_def)
  have pop: "calculate_variance_population d \<noteq> NaN"
    "calculate_variance_population_contracted d \<noteq> NaN" if "1 \<le> count d"
    using population_not_nan [OF that a] population_contracted_not_nan [OF that a]
      pv [OF that] pc [OF that]
    by simp_all
  have smp: "calculate_variance_sample d \<noteq> NaN"
    "calculate_variance_sample_contracted d \<noteq> NaN" if "2 \<le> count d"
  proof -
    from that have "1 \<le> count d" by simp
    note p = pop [OF this]
    from size_ratio_positive [OF that assms(1)] obtain r
      where r: "ddiv (double_of_size (count d)) (double_of_size (count d - 1)) = Fin r" "0 < r"
      by blast
    show "calculate_variance_sample d \<noteq> NaN"
      unfolding sv [OF that] r(1) using p(1) r(2) by (rule dmul_positive_not_nan)
    show "calculate_variance_sample_contracted d \<noteq> NaN"
      unfolding sc [OF that] r(1) using p(2) r(2) by (rule dmul_positive_not_nan)
  qed
  have s0: "calculate_variance_sample d = NaN" "calculate_variance_sample_contracted d = NaN"
    if "count d < 2"
    using that
    by (simp_all add: calculate_variance_sample_def calculate_variance_sample_contracted_def
        MIN_COUNT_SAMPLE_def)
  have p0: "calculate_variance_population d = NaN"
    "calculate_variance_population_contracted d = NaN" if "count d < 1"
    using that
    by (simp_all add: calculate_variance_population_def
        calculate_variance_population_contracted_def MIN_COUNT_POPULATION_def)
  have n1: "calculate_variance_sample d = NaN \<longleftrightarrow> count d < 2"
    "calculate_variance_sample_contracted d = NaN \<longleftrightarrow> count d < 2"
    using s0 smp by (cases "count d < 2"; simp add: not_less)+
  have n2: "calculate_variance_population d = NaN \<longleftrightarrow> count d < 1"
    "calculate_variance_population_contracted d = NaN \<longleftrightarrow> count d < 1"
    using p0 pop by (cases "count d < 1"; simp add: not_less)+
  have f: "(1 \<le> count d \<longrightarrow> is_finite (calculate_variance_population d)
                           \<and> is_finite (calculate_variance_population_contracted d))
            \<and> (2 \<le> count d \<longrightarrow> is_finite (calculate_variance_sample d)
                             \<and> is_finite (calculate_variance_sample_contracted d))"
    if b: "\<bar>s\<bar> \<le> of_nat (count d) * 2 powi 509" "\<bar>q\<bar> \<le> of_nat (count d) * 2 powi 1019"
  proof -
    from b(2) have b2: "\<bar>q\<bar> \<le> of_nat (count d) * 2 powi (1020 - 1)" by simp
    have one: "is_finite (calculate_variance_population d)
               \<and> is_finite (calculate_variance_population_contracted d)"
      if c1: "1 \<le> count d"
    proof -
      from population_bounded [OF c1 assms(1) _ _ _ b(1) b2]
      obtain p where "dsub (ddiv (Fin q) (double_of_size (count d)))
                   (dmul (ddiv (Fin s) (double_of_size (count d)))
                         (ddiv (Fin s) (double_of_size (count d)))) = Fin p"
        by auto
      moreover from population_contracted_bounded [OF c1 assms(1) _ _ _ b(1) b2]
      obtain p' where "fused_sub (ddiv (Fin q) (double_of_size (count d)))
                   (ddiv (Fin s) (double_of_size (count d)))
                   (ddiv (Fin s) (double_of_size (count d))) = Fin p'"
        by auto
      ultimately show ?thesis
        unfolding pv [OF c1] pc [OF c1] assms(2,4) by simp
    qed
    have two: "is_finite (calculate_variance_sample d)
               \<and> is_finite (calculate_variance_sample_contracted d)"
      if c2: "2 \<le> count d"
    proof -
      from c2 have c1: "1 \<le> count d" by simp
      from population_bounded [OF c1 assms(1) _ _ _ b(1) b2]
      obtain p where p: "dsub (ddiv (Fin q) (double_of_size (count d)))
                   (dmul (ddiv (Fin s) (double_of_size (count d)))
                         (ddiv (Fin s) (double_of_size (count d)))) = Fin p"
        "\<bar>p\<bar> \<le> 2 powi (1020 + 1)"
        by auto
      from population_contracted_bounded [OF c1 assms(1) _ _ _ b(1) b2]
      obtain p' where p': "fused_sub (ddiv (Fin q) (double_of_size (count d)))
                   (ddiv (Fin s) (double_of_size (count d)))
                   (ddiv (Fin s) (double_of_size (count d))) = Fin p'"
        "\<bar>p'\<bar> \<le> 2 powi (1020 + 1)"
        by auto
      have "is_finite (dmul (Fin p) (ddiv (double_of_size (count d))
                                          (double_of_size (count d - 1))))"
        using c2 assms(1) p(2) by (rule sample_bounded) simp_all
      moreover have "is_finite (dmul (Fin p') (ddiv (double_of_size (count d))
                                          (double_of_size (count d - 1))))"
        using c2 assms(1) p'(2) by (rule sample_bounded) simp_all
      ultimately show ?thesis
        unfolding sv [OF c2] sc [OF c2] pv [OF c1] pc [OF c1] assms(2,4) p(1) p'(1)
        by (rule conjI)
    qed
    show ?thesis using one two by blast
  qed
  show ?thesis using n1 n2 pv pc sv sc f by blast
qed

theorem variance_nan_iff_witness:
  "count (zero_filled\<lparr>count := 2, sum_val := Fin 7, sum_sq := Fin 25\<rparr>) < 2 ^ 64
   \<and> sum_val (zero_filled\<lparr>count := 2, sum_val := Fin 7, sum_sq := Fin 25\<rparr>) = Fin 7 \<and> is_double (Fin 7)
   \<and> sum_sq (zero_filled\<lparr>count := 2, sum_val := Fin 7, sum_sq := Fin 25\<rparr>) = Fin 25 \<and> is_double (Fin 25)
   \<and> \<bar>7 :: rat\<bar> \<le> of_nat 2 * 2 powi 509 \<and> \<bar>25 :: rat\<bar> \<le> of_nat 2 * 2 powi 1019
   \<and> calculate_variance_sample (zero_filled\<lparr>count := 2, sum_val := Fin 7, sum_sq := Fin 25\<rparr>) \<noteq> NaN
   \<and> calculate_variance_population (zero_filled\<lparr>count := 2, sum_val := Fin 7, sum_sq := Fin 25\<rparr>) \<noteq> NaN
   \<and> is_finite (calculate_variance_sample (zero_filled\<lparr>count := 2, sum_val := Fin 7, sum_sq := Fin 25\<rparr>))
   \<and> is_finite (calculate_variance_population (zero_filled\<lparr>count := 2, sum_val := Fin 7, sum_sq := Fin 25\<rparr>))
   \<and> is_finite (calculate_variance_sample_contracted (zero_filled\<lparr>count := 2, sum_val := Fin 7, sum_sq := Fin 25\<rparr>))
   \<and> is_finite (calculate_variance_population_contracted (zero_filled\<lparr>count := 2, sum_val := Fin 7, sum_sq := Fin 25\<rparr>))
   \<and> calculate_variance_population (zero_filled\<lparr>count := 2, sum_val := Fin 7, sum_sq := Fin 25\<rparr>) = Fin (1 / 4)
   \<and> calculate_variance_sample (zero_filled\<lparr>count := 2, sum_val := Fin 7, sum_sq := Fin 25\<rparr>) = Fin (1 / 2)
   \<and> calculate_variance_population_contracted (zero_filled\<lparr>count := 2, sum_val := Fin 7, sum_sq := Fin 25\<rparr>) = Fin (1 / 4)
   \<and> calculate_variance_sample_contracted (zero_filled\<lparr>count := 2, sum_val := Fin 7, sum_sq := Fin 25\<rparr>) = Fin (1 / 2)
   \<and> calculate_variance_sample (zero_filled\<lparr>count := 1, sum_val := Fin 7, sum_sq := Fin 49\<rparr>)
      = NaN"
proof -
  let ?d = "zero_filled\<lparr>count := 2, sum_val := Fin 7, sum_sq := Fin 25\<rparr>"
  have h: "count ?d < 2 ^ 64" "sum_val ?d = Fin 7" "is_double (sum_val ?d)"
    "sum_sq ?d = Fin 25" "is_double (sum_sq ?d)"
    by (simp_all add: zero_filled_def)
  have b: "\<bar>7 :: rat\<bar> \<le> of_nat (count ?d) * 2 powi 509"
    "\<bar>25 :: rat\<bar> \<le> of_nat (count ?d) * 2 powi 1019"
    by (simp_all add: zero_filled_def)
  have c: "1 \<le> count ?d" "2 \<le> count ?d" "\<not> count ?d < 2" "\<not> count ?d < 1"
    by (simp_all add: zero_filled_def)
  have r: "rnd (7 / 2) = Fin (7 / 2)" "rnd (25 / 2) = Fin (25 / 2)"
    "rnd (49 / 4) = Fin (49 / 4)" "rnd (1 / 4) = Fin (1 / 4)" "rnd (1 / 2) = Fin (1 / 2)"
    by (rule rnd_exact [of _ 7 "- 1"], simp_all)
       (rule rnd_exact [of _ 25 "- 1"], simp_all,
        rule rnd_exact [of _ 49 "- 2"], simp_all,
        rule rnd_exact [of _ 1 "- 2"], simp_all,
        rule rnd_exact [of _ 1 "- 1"], simp_all)
  have v: "calculate_variance_population ?d = Fin (1 / 4)"
    "calculate_variance_sample ?d = Fin (1 / 2)"
    "calculate_variance_population_contracted ?d = Fin (1 / 4)"
    "calculate_variance_sample_contracted ?d = Fin (1 / 2)"
    by (simp_all add: calculate_variance_population_def calculate_variance_sample_def
        calculate_variance_population_contracted_def calculate_variance_sample_contracted_def
        MIN_COUNT_POPULATION_def MIN_COUNT_SAMPLE_def double_of_size_def zero_filled_def r)
  have n: "calculate_variance_sample
             (zero_filled\<lparr>count := 1, sum_val := Fin 7, sum_sq := Fin 49\<rparr>) = NaN"
    by (simp add: calculate_variance_sample_def MIN_COUNT_SAMPLE_def zero_filled_def)
  note t = variance_nan_iff [OF h]
  from t c have "calculate_variance_sample ?d \<noteq> NaN" "calculate_variance_population ?d \<noteq> NaN"
    by blast+
  moreover from t b c have "is_finite (calculate_variance_sample ?d)"
    "is_finite (calculate_variance_population ?d)"
    "is_finite (calculate_variance_sample_contracted ?d)"
    "is_finite (calculate_variance_population_contracted ?d)"
    by blast+
  ultimately show ?thesis using h b v n by (simp add: zero_filled_def)
qed

text \<open>
  Inserting \<open>one_tenth\<close> three times leaves a population variance of
  \<open>- 2 powi (- 59)\<close> and a sample variance of \<open>- 3 * 2 powi (- 60)\<close>: both negative, at
  \<open>count = 3\<close>. In the contracted evaluation the two variances are other numbers, and
  negative as well.
\<close>

theorem negative_variance_counterexample:
  "is_double one_tenth
   \<and> after_run live
        [Step (plentiful unset) [SqlFloat one_tenth],
         Step (plentiful unset) [SqlFloat one_tenth],
         Step (plentiful unset) [SqlFloat one_tenth]]
      = Some [one_tenth, one_tenth, one_tenth]
   \<and> after_run calculate_variance_population
        [Step (plentiful unset) [SqlFloat one_tenth],
         Step (plentiful unset) [SqlFloat one_tenth],
         Step (plentiful unset) [SqlFloat one_tenth]]
      = Some (Fin (- (1 / 576460752303423488)))
   \<and> after_run calculate_variance_sample
        [Step (plentiful unset) [SqlFloat one_tenth],
         Step (plentiful unset) [SqlFloat one_tenth],
         Step (plentiful unset) [SqlFloat one_tenth]]
      = Some (Fin (- (3 / 1152921504606846976)))
   \<and> \<not> dle (Fin 0) (Fin (- (1 / 576460752303423488)))
   \<and> \<not> dle (Fin 0) (Fin (- (3 / 1152921504606846976)))
   \<and> after_run_contracted live
        [Step (plentiful unset) [SqlFloat one_tenth],
         Step (plentiful unset) [SqlFloat one_tenth],
         Step (plentiful unset) [SqlFloat one_tenth]]
      = Some [one_tenth, one_tenth, one_tenth]
   \<and> after_run_contracted calculate_variance_population_contracted
        [Step (plentiful unset) [SqlFloat one_tenth],
         Step (plentiful unset) [SqlFloat one_tenth],
         Step (plentiful unset) [SqlFloat one_tenth]]
      = Some (Fin (- (1261007895663739 / 649037107316853453566312041152512)))
   \<and> after_run_contracted calculate_variance_sample_contracted
        [Step (plentiful unset) [SqlFloat one_tenth],
         Step (plentiful unset) [SqlFloat one_tenth],
         Step (plentiful unset) [SqlFloat one_tenth]]
      = Some (Fin (- (3783023686991217 / 1298074214633706907132624082305024)))
   \<and> \<not> dle (Fin 0) (Fin (- (1261007895663739 / 649037107316853453566312041152512)))
   \<and> \<not> dle (Fin 0) (Fin (- (3783023686991217 / 1298074214633706907132624082305024)))"
proof -
  let ?calls = "[Step (plentiful unset) [SqlFloat one_tenth],
         Step (plentiful unset) [SqlFloat one_tenth],
         Step (plentiful unset) [SqlFloat one_tenth]]"
  have "\<exists>xs. run ?calls NoContext
          = Some (Context \<lparr>values_buf = Some xs, count = 3, capacity = 100, head = 0, tail = 3,
                    sum_val = Fin (1351079888211149 / 4503599627370496),
                    sum_sq = Fin (4323455642275677 / 144115188075855872)\<rparr>)
          \<and> xs ! 0 = one_tenth \<and> xs ! Suc 0 = one_tenth \<and> xs ! Suc (Suc 0) = one_tenth"
    by (simp add: eval_defs tenth_facts one_tenth_def)
  then obtain xs where r: "run ?calls NoContext
          = Some (Context \<lparr>values_buf = Some xs, count = 3, capacity = 100, head = 0, tail = 3,
                    sum_val = Fin (1351079888211149 / 4503599627370496),
                    sum_sq = Fin (4323455642275677 / 144115188075855872)\<rparr>)"
    and xs: "xs ! 0 = one_tenth" "xs ! Suc 0 = one_tenth" "xs ! Suc (Suc 0) = one_tenth"
    by blast
  have "\<exists>ys. run_contracted ?calls NoContext
          = Some (Context \<lparr>values_buf = Some ys, count = 3, capacity = 100, head = 0, tail = 3,
                    sum_val = Fin (1351079888211149 / 4503599627370496),
                    sum_sq = Fin (4323455642275677 / 144115188075855872)\<rparr>)
          \<and> ys ! 0 = one_tenth \<and> ys ! Suc 0 = one_tenth \<and> ys ! Suc (Suc 0) = one_tenth"
    by (simp add: eval_defs eval_contracted_defs tenth_facts tenth_contracted_facts one_tenth_def)
  then obtain ys where rc: "run_contracted ?calls NoContext
          = Some (Context \<lparr>values_buf = Some ys, count = 3, capacity = 100, head = 0, tail = 3,
                    sum_val = Fin (1351079888211149 / 4503599627370496),
                    sum_sq = Fin (4323455642275677 / 144115188075855872)\<rparr>)"
    and ys: "ys ! 0 = one_tenth" "ys ! Suc 0 = one_tenth" "ys ! Suc (Suc 0) = one_tenth"
    by blast
  have l: "live \<lparr>values_buf = Some zs, count = 3, capacity = 100, head = 0, tail = 3,
                  sum_val = Fin (1351079888211149 / 4503599627370496),
                  sum_sq = Fin (4323455642275677 / 144115188075855872)\<rparr>
           = [one_tenth, one_tenth, one_tenth]"
    if "zs ! 0 = one_tenth" "zs ! Suc 0 = one_tenth" "zs ! Suc (Suc 0) = one_tenth" for zs
    using that by (simp add: live_def numeral_3_eq_3)
  have p: "calculate_variance_population
             \<lparr>values_buf = Some zs, count = 3, capacity = 100, head = 0, tail = 3,
                sum_val = Fin (1351079888211149 / 4503599627370496),
                sum_sq = Fin (4323455642275677 / 144115188075855872)\<rparr>
           = Fin (- (1 / 576460752303423488))"
    "calculate_variance_sample
             \<lparr>values_buf = Some zs, count = 3, capacity = 100, head = 0, tail = 3,
                sum_val = Fin (1351079888211149 / 4503599627370496),
                sum_sq = Fin (4323455642275677 / 144115188075855872)\<rparr>
           = Fin (- (3 / 1152921504606846976))"
    "calculate_variance_population_contracted
             \<lparr>values_buf = Some zs, count = 3, capacity = 100, head = 0, tail = 3,
                sum_val = Fin (1351079888211149 / 4503599627370496),
                sum_sq = Fin (4323455642275677 / 144115188075855872)\<rparr>
           = Fin (- (1261007895663739 / 649037107316853453566312041152512))"
    "calculate_variance_sample_contracted
             \<lparr>values_buf = Some zs, count = 3, capacity = 100, head = 0, tail = 3,
                sum_val = Fin (1351079888211149 / 4503599627370496),
                sum_sq = Fin (4323455642275677 / 144115188075855872)\<rparr>
           = Fin (- (3783023686991217 / 1298074214633706907132624082305024))"
    for zs
    by (simp_all add: calculate_variance_population_def calculate_variance_sample_def
        calculate_variance_population_contracted_def calculate_variance_sample_contracted_def
        MIN_COUNT_POPULATION_def MIN_COUNT_SAMPLE_def double_of_size_def
        tenth_facts tenth_contracted_facts)
  have d: "is_double one_tenth" by (simp add: one_tenth_def tenth_facts)
  show ?thesis
    unfolding after_runI [OF r] after_run_contractedI [OF rc]
    using l [OF xs] l [OF ys] p d by simp
qed

text \<open>
  The sums must be finite. After two insertions of \<open>2 ^ 1023\<close>, a finite double, both sums
  are infinite and both variances are NaN at \<open>count = 2\<close>, in either evaluation.
\<close>

lemma overflow_variance_is_nan:
  "is_double (Fin (2 ^ 1023))
   \<and> after_run count
     [Step (plentiful unset) [SqlFloat (Fin (2 ^ 1023))],
      Step (plentiful unset) [SqlFloat (Fin (2 ^ 1023))]] = Some 2
   \<and> after_run sum_val
     [Step (plentiful unset) [SqlFloat (Fin (2 ^ 1023))],
      Step (plentiful unset) [SqlFloat (Fin (2 ^ 1023))]] = Some PInf
   \<and> after_run sum_sq
     [Step (plentiful unset) [SqlFloat (Fin (2 ^ 1023))],
      Step (plentiful unset) [SqlFloat (Fin (2 ^ 1023))]] = Some PInf
   \<and> after_run calculate_variance_sample
     [Step (plentiful unset) [SqlFloat (Fin (2 ^ 1023))],
      Step (plentiful unset) [SqlFloat (Fin (2 ^ 1023))]] = Some NaN
   \<and> after_run calculate_variance_population
     [Step (plentiful unset) [SqlFloat (Fin (2 ^ 1023))],
      Step (plentiful unset) [SqlFloat (Fin (2 ^ 1023))]] = Some NaN
   \<and> after_run_contracted calculate_variance_sample_contracted
     [Step (plentiful unset) [SqlFloat (Fin (2 ^ 1023))],
      Step (plentiful unset) [SqlFloat (Fin (2 ^ 1023))]] = Some NaN
   \<and> after_run_contracted calculate_variance_population_contracted
     [Step (plentiful unset) [SqlFloat (Fin (2 ^ 1023))],
      Step (plentiful unset) [SqlFloat (Fin (2 ^ 1023))]] = Some NaN"
proof -
  have n: "numeric_value (SqlFloat (Fin (2 ^ 1023))) = Some (Fin (2 ^ 1023))"
    by (simp only: numeric_value.simps)
  have d: "is_double (Fin (2 ^ 1023))" using huge_1 by (simp only: is_double.simps)
  have s: "dadd (dadd (Fin 0) (Fin (2 ^ 1023))) (Fin (2 ^ 1023)) = PInf"
    by (simp only: dadd.simps add_0 huge_1 huge_2)
  have q: "dadd (dadd (Fin 0) (dmul (Fin (2 ^ 1023)) (Fin (2 ^ 1023))))
                (dmul (Fin (2 ^ 1023)) (Fin (2 ^ 1023))) = PInf"
    by (simp only: dadd.simps dmul.simps huge_3)
  have qc: "fused_add (fused_add (Fin 0) (Fin (2 ^ 1023)) (Fin (2 ^ 1023)))
                      (Fin (2 ^ 1023)) (Fin (2 ^ 1023)) = PInf"
    by (simp only: fused_add.simps add_0 huge_3)
  have v: "calculate_variance_sample
          \<lparr>values_buf = b, count = 2, capacity = c, head = i, tail = j,
             sum_val = PInf, sum_sq = PInf\<rparr> = NaN"
    "calculate_variance_population
          \<lparr>values_buf = b, count = 2, capacity = c, head = i, tail = j,
             sum_val = PInf, sum_sq = PInf\<rparr> = NaN"
    "calculate_variance_sample_contracted
          \<lparr>values_buf = b, count = 2, capacity = c, head = i, tail = j,
             sum_val = PInf, sum_sq = PInf\<rparr> = NaN"
    "calculate_variance_population_contracted
          \<lparr>values_buf = b, count = 2, capacity = c, head = i, tail = j,
             sum_val = PInf, sum_sq = PInf\<rparr> = NaN"
    for b c i j
    by (simp_all add: calculate_variance_population_def calculate_variance_sample_def
        calculate_variance_population_contracted_def calculate_variance_sample_contracted_def
        MIN_COUNT_POPULATION_def MIN_COUNT_SAMPLE_def double_of_size_def)
  show ?thesis
    unfolding after_runI [OF two_inserts_run(1) [OF n n, of unset]]
      after_run_contractedI [OF two_inserts_run(2) [OF n n, of unset]] s q qc
    using d v by (simp only: WindowStatsData.select_convs simp_thms)
qed

text \<open>
  The bound is needed for the finiteness. After \<open>2 ^ 458\<close> and \<open>2 ^ 512 - 2 ^ 459\<close>
  were inserted and \<open>2 ^ 458\<close> was evicted, both sums are finite and \<open>sum\<close> carries the
  rounding of the addition. Where the square of the mean is rounded it overflows, and the
  population variance is \<open>- \<infinity>\<close> at \<open>count = 1\<close>; in the contracted evaluation it is
  \<open>- (2 ^ 972)\<close>.
\<close>

lemma finite_sums_infinite_population_variance:
  "is_double (Fin (2 ^ 458)) \<and> is_double (Fin (2 ^ 512 - 2 ^ 459))
   \<and> after_run count
     [Step (plentiful unset) [SqlFloat (Fin (2 ^ 458))],
      Step (plentiful unset) [SqlFloat (Fin (2 ^ 512 - 2 ^ 459))],
      Inverse [SqlFloat (Fin (2 ^ 458))]] = Some 1
   \<and> after_run live
     [Step (plentiful unset) [SqlFloat (Fin (2 ^ 458))],
      Step (plentiful unset) [SqlFloat (Fin (2 ^ 512 - 2 ^ 459))],
      Inverse [SqlFloat (Fin (2 ^ 458))]] = Some [Fin (2 ^ 512 - 2 ^ 459)]
   \<and> after_run sum_val
     [Step (plentiful unset) [SqlFloat (Fin (2 ^ 458))],
      Step (plentiful unset) [SqlFloat (Fin (2 ^ 512 - 2 ^ 459))],
      Inverse [SqlFloat (Fin (2 ^ 458))]] = Some (Fin (2 ^ 512))
   \<and> after_run sum_sq
     [Step (plentiful unset) [SqlFloat (Fin (2 ^ 458))],
      Step (plentiful unset) [SqlFloat (Fin (2 ^ 512 - 2 ^ 459))],
      Inverse [SqlFloat (Fin (2 ^ 458))]] = Some (Fin (2 ^ 1024 - 2 ^ 972))
   \<and> after_run calculate_variance_population
     [Step (plentiful unset) [SqlFloat (Fin (2 ^ 458))],
      Step (plentiful unset) [SqlFloat (Fin (2 ^ 512 - 2 ^ 459))],
      Inverse [SqlFloat (Fin (2 ^ 458))]] = Some NInf
   \<and> after_run_contracted sum_val
     [Step (plentiful unset) [SqlFloat (Fin (2 ^ 458))],
      Step (plentiful unset) [SqlFloat (Fin (2 ^ 512 - 2 ^ 459))],
      Inverse [SqlFloat (Fin (2 ^ 458))]] = Some (Fin (2 ^ 512))
   \<and> after_run_contracted sum_sq
     [Step (plentiful unset) [SqlFloat (Fin (2 ^ 458))],
      Step (plentiful unset) [SqlFloat (Fin (2 ^ 512 - 2 ^ 459))],
      Inverse [SqlFloat (Fin (2 ^ 458))]] = Some (Fin (2 ^ 1024 - 2 ^ 972))
   \<and> after_run_contracted calculate_variance_population_contracted
     [Step (plentiful unset) [SqlFloat (Fin (2 ^ 458))],
      Step (plentiful unset) [SqlFloat (Fin (2 ^ 512 - 2 ^ 459))],
      Inverse [SqlFloat (Fin (2 ^ 458))]] = Some (Fin (- (2 ^ 972)))"
proof -
  have n: "numeric_value (SqlFloat (Fin (2 ^ 458))) = Some (Fin (2 ^ 458))"
    "numeric_value (SqlFloat (Fin (2 ^ 512 - 2 ^ 459))) = Some (Fin (2 ^ 512 - 2 ^ 459))"
    "SqlFloat (Fin (2 ^ 458)) \<noteq> SqlNull"
    by (simp_all only: numeric_value.simps sqlite_value.distinct simp_thms)
  have d: "is_double (Fin (2 ^ 458))" "is_double (Fin (2 ^ 512 - 2 ^ 459))"
    using big_1 big_11 by (simp_all only: is_double.simps)
  have s: "dsub (dadd (dadd (Fin 0) (Fin (2 ^ 458))) (Fin (2 ^ 512 - 2 ^ 459))) (Fin (2 ^ 458))
           = Fin (2 ^ 512)"
    by (simp only: dadd.simps dsub.simps add_0 big_1 big_3 big_6)
  have q: "dsub (dadd (dadd (Fin 0) (dmul (Fin (2 ^ 458)) (Fin (2 ^ 458))))
                      (dmul (Fin (2 ^ 512 - 2 ^ 459)) (Fin (2 ^ 512 - 2 ^ 459))))
                (dmul (Fin (2 ^ 458)) (Fin (2 ^ 458)))
           = Fin (2 ^ 1024 - 2 ^ 972)"
    by (simp only: dadd.simps dsub.simps dmul.simps add_0 big_2 big_2b big_4 big_5 big_7)
  have qc: "fused_sub (fused_add (fused_add (Fin 0) (Fin (2 ^ 458)) (Fin (2 ^ 458)))
                         (Fin (2 ^ 512 - 2 ^ 459)) (Fin (2 ^ 512 - 2 ^ 459)))
                      (Fin (2 ^ 458)) (Fin (2 ^ 458))
           = Fin (2 ^ 1024 - 2 ^ 972)"
    by (simp only: fused_add.simps fused_sub.simps add_0 big_2 big_c1 big_c2)
  have m: "ddiv (Fin (2 ^ 512)) (Fin 1) = Fin (2 ^ 512)"
    "dmul (Fin (2 ^ 512)) (Fin (2 ^ 512)) = PInf"
    "ddiv (Fin (2 ^ 1024 - 2 ^ 972)) (Fin 1) = Fin (2 ^ 1024 - 2 ^ 972)"
    using big_8 big_9 big_10 by simp_all
  have mc: "fused_sub (Fin (2 ^ 1024 - 2 ^ 972)) (Fin (2 ^ 512)) (Fin (2 ^ 512))
            = Fin (- (2 ^ 972))"
    by (simp only: fused_sub.simps big_c3)
  have p: "calculate_variance_population
          \<lparr>values_buf = b, count = 1, capacity = c, head = i, tail = j,
             sum_val = x, sum_sq = y\<rparr> = NInf"
    if "ddiv x (Fin 1) = z" "dmul z z = PInf" "ddiv y (Fin 1) = Fin w" for b c i j x y z w
    using that
    by (simp add: calculate_variance_population_def MIN_COUNT_POPULATION_def double_of_size_def)
  have pc: "calculate_variance_population_contracted
          \<lparr>values_buf = b, count = 1, capacity = c, head = i, tail = j,
             sum_val = x, sum_sq = y\<rparr> = u"
    if "ddiv x (Fin 1) = z" "ddiv y (Fin 1) = w" "fused_sub w z z = u" for b c i j x y z w u
    using that
    by (simp add: calculate_variance_population_contracted_def MIN_COUNT_POPULATION_def
        double_of_size_def)
  have l: "live \<lparr>values_buf = Some ((map unset [0..<100])[0 := a, 1 := b]), count = 1,
                  capacity = 100, head = 1, tail = 2, sum_val = x, sum_sq = y\<rparr> = [b]"
    for a b x y
    by (simp add: live_def)
  show ?thesis
    unfolding after_runI [OF two_inserts_one_evict_run [OF n, of unset "[]"]]
      after_run_contractedI [OF two_inserts_one_evict_run_contracted [OF n, of unset "[]"]]
      s q qc
    using d p [OF m] pc [OF m(1,3) mc]
    by (simp only: WindowStatsData.select_convs l simp_thms)
qed

text \<open>
  Likewise for a block with \<open>count = 2\<close>, \<open>sum = 2 ^ 600\<close> and \<open>sum_sq = 0\<close>, which is not
  the result of a run shown here: its sums are finite, the square of its mean overflows,
  and both variances are \<open>- \<infinity>\<close>, in either evaluation.
\<close>

lemma unbounded_sums_infinite_variance:
  "is_double (Fin (2 ^ 600)) \<and> is_double (Fin 0)
   \<and> calculate_variance_population
        (zero_filled\<lparr>count := 2, sum_val := Fin (2 ^ 600), sum_sq := Fin 0\<rparr>) = NInf
   \<and> calculate_variance_sample
        (zero_filled\<lparr>count := 2, sum_val := Fin (2 ^ 600), sum_sq := Fin 0\<rparr>) = NInf
   \<and> calculate_variance_population_contracted
        (zero_filled\<lparr>count := 2, sum_val := Fin (2 ^ 600), sum_sq := Fin 0\<rparr>) = NInf
   \<and> calculate_variance_sample_contracted
        (zero_filled\<lparr>count := 2, sum_val := Fin (2 ^ 600), sum_sq := Fin 0\<rparr>) = NInf"
proof -
  have d: "is_double (Fin (2 ^ 600))" using rnd_p600 by (simp only: is_double.simps)
  have h: "rnd (2 ^ 599) = Fin (2 ^ 599)" by (rule rnd_exact [of _ 1 599]) simp_all
  have "(2::rat) ^ 600 / 2 = 2 ^ 599" by simp
  then have m: "ddiv (Fin (2 ^ 600)) (Fin 2) = Fin (2 ^ 599)" using h by simp
  have "rnd (2 ^ 1198) = (if (2::rat) powi 1024 \<le> of_int (2 ^ 52) * 2 powi (max 1198 (- 1022) - 52)
                  then PInf else Fin (of_int (2 ^ 52) * 2 powi (max 1198 (- 1022) - 52)))"
    by (rule rnd_pos_eval) simp_all
  then have big: "rnd (2 ^ 1198) = PInf" by simp
  then have o: "dmul (Fin (2 ^ 599)) (Fin (2 ^ 599)) = PInf" by (simp flip: power_add)
  from big have "rnd (- (2 ^ 1198)) = NInf" by (simp add: rnd_minus)
  then have oc: "fused_sub (Fin 0) (Fin (2 ^ 599)) (Fin (2 ^ 599)) = NInf"
    by (simp flip: power_add)
  have p: "calculate_variance_population
          \<lparr>values_buf = b, count = 2, capacity = c, head = i, tail = j,
             sum_val = x, sum_sq = Fin 0\<rparr> = NInf"
    "calculate_variance_sample
          \<lparr>values_buf = b, count = 2, capacity = c, head = i, tail = j,
             sum_val = x, sum_sq = Fin 0\<rparr> = NInf"
    if "ddiv x (Fin 2) = y" "dmul y y = PInf" for b c i j x y
    using that
    by (simp_all add: calculate_variance_population_def calculate_variance_sample_def
        MIN_COUNT_POPULATION_def MIN_COUNT_SAMPLE_def double_of_size_def)
  have pc: "calculate_variance_population_contracted
          \<lparr>values_buf = b, count = 2, capacity = c, head = i, tail = j,
             sum_val = x, sum_sq = Fin 0\<rparr> = NInf"
    "calculate_variance_sample_contracted
          \<lparr>values_buf = b, count = 2, capacity = c, head = i, tail = j,
             sum_val = x, sum_sq = Fin 0\<rparr> = NInf"
    if "ddiv x (Fin 2) = y" "fused_sub (Fin 0) y y = NInf" for b c i j x y
    using that
    by (simp_all add: calculate_variance_population_contracted_def
        calculate_variance_sample_contracted_def
        MIN_COUNT_POPULATION_def MIN_COUNT_SAMPLE_def double_of_size_def)
  show ?thesis
    unfolding zero_filled_def using d p [OF m o] pc [OF m oc]
    by (simp del: is_double.simps) simp
qed

section \<open>Insert, then evict\<close>




section \<open>The structural invariant\<close>

text \<open>
  C9. After any sequence of \<open>stats_step\<close> and \<open>stats_inverse\<close> calls on a fresh
  aggregation, with any allocation outcomes, the block satisfies \<open>count \<le> capacity\<close>,
  \<open>head < capacity\<close> and \<open>tail = (head + count) mod capacity\<close>. The zero-filled block
  that SQLite hands out is initialised by the call that obtains it, so no call returns
  with \<open>capacity = 0\<close>.
\<close>

theorem structural_invariant:
  assumes "run calls NoContext = Some (Context d)"
  shows "count d \<le> capacity d \<and> head d < capacity d
         \<and> tail d = (head d + count d) mod capacity d"
proof -
  have "ctx_inv (Context d)" using run_inv [OF _ assms] by simp
  then have i: "buffer_inv d" by simp
  show ?thesis
  proof (cases "values_buf d")
    case None
    then show ?thesis using i by (simp add: buffer_inv_def blank_def INITIAL_CAPACITY_def)
  next
    case (Some xs)
    then show ?thesis using buffer_inv_SomeD [OF i Some] by simp
  qed
qed

theorem structural_invariant_witness:
  "run [Step (plentiful unset) [SqlFloat (Fin 1)],
        Step (plentiful unset) [SqlInteger 2],
        Inverse [SqlFloat (Fin 1)]] NoContext
     = Some (Context \<lparr>values_buf = Some ((map unset [0..<100])[0 := Fin 1, 1 := Fin 2]), count = 1,
                       capacity = 100, head = 1, tail = 2, sum_val = Fin 2, sum_sq = Fin 4\<rparr>)
   \<and> (1::nat) \<le> 100 \<and> (1::nat) < 100 \<and> (2::nat) = (1 + 1) mod 100"
proof -
  have r: "run [Step (plentiful unset) [SqlFloat (Fin 1)],
        Step (plentiful unset) [SqlInteger 2],
        Inverse [SqlFloat (Fin 1)]] NoContext
     = Some (Context \<lparr>values_buf = Some ((map unset [0..<100])[0 := Fin 1, 1 := Fin 2]), count = 1,
                       capacity = 100, head = 1, tail = 2, sum_val = Fin 2, sum_sq = Fin 4\<rparr>)"
    by (simp add: eval_defs)
  from structural_invariant [OF r] r show ?thesis by simp
qed

section \<open>NULL rows\<close>

text \<open>
  C10. On a block that satisfies the invariant, a NULL argument makes \<open>stats_step\<close>
  leave \<open>count\<close>, \<open>sum\<close>, \<open>sum_sq\<close>, \<open>head\<close>, \<open>tail\<close> and the live values as
  they were (on the first call it may still allocate the buffer), and \<open>stats_inverse\<close>
  returns the context unchanged.
\<close>

theorem null_row_ignored:
  assumes "ctx_inv ctx"
  shows "count (data_of (snd (stats_step env [SqlNull] ctx))) = count (data_of ctx)
       \<and> sum_val (data_of (snd (stats_step env [SqlNull] ctx))) = sum_val (data_of ctx)
       \<and> sum_sq (data_of (snd (stats_step env [SqlNull] ctx))) = sum_sq (data_of ctx)
       \<and> head (data_of (snd (stats_step env [SqlNull] ctx))) = head (data_of ctx)
       \<and> tail (data_of (snd (stats_step env [SqlNull] ctx))) = tail (data_of ctx)
       \<and> live (data_of (snd (stats_step env [SqlNull] ctx))) = live (data_of ctx)
       \<and> stats_inverse (SqlNull # rest) ctx = (Done, ctx)"
proof -
  have inv: "stats_inverse (SqlNull # rest) ctx = (Done, ctx)"
    by (simp add: stats_inverse_def split: option.split)
  from assms have "same_layout (data_of (snd (stats_step env [SqlNull] ctx))) (data_of ctx)"
  proof (cases rule: stats_step_cases [of ctx env "[SqlNull]"])
    case (untouched r)
    then show ?thesis by (simp add: same_layout_refl)
  next
    case (prepared r d1)
    then show ?thesis by simp
  next
    case (stored arg v d2)
    then show ?thesis by simp
  qed
  then show ?thesis using inv by (simp add: same_layout_def same_window_def)
qed

theorem null_row_ignored_witness:
  "ctx_inv (Context \<lparr>values_buf = Some [Fin 7, Fin 9], count = 1, capacity = 2, head = 1,
                      tail = 0, sum_val = Fin 9, sum_sq = Fin 81\<rparr>)
   \<and> stats_step (plentiful unset) [SqlNull]
        (Context \<lparr>values_buf = Some [Fin 7, Fin 9], count = 1, capacity = 2, head = 1,
                   tail = 0, sum_val = Fin 9, sum_sq = Fin 81\<rparr>)
      = (Done, Context \<lparr>values_buf = Some [Fin 7, Fin 9], count = 1, capacity = 2, head = 1,
                         tail = 0, sum_val = Fin 9, sum_sq = Fin 81\<rparr>)
   \<and> live \<lparr>values_buf = Some [Fin 7, Fin 9], count = 1, capacity = 2, head = 1,
             tail = 0, sum_val = Fin 9, sum_sq = Fin 81\<rparr> = [Fin 9]
   \<and> stats_inverse [SqlNull]
        (Context \<lparr>values_buf = Some [Fin 7, Fin 9], count = 1, capacity = 2, head = 1,
                   tail = 0, sum_val = Fin 9, sum_sq = Fin 81\<rparr>)
      = (Done, Context \<lparr>values_buf = Some [Fin 7, Fin 9], count = 1, capacity = 2, head = 1,
                         tail = 0, sum_val = Fin 9, sum_sq = Fin 81\<rparr>)"
proof -
  let ?d = "\<lparr>values_buf = Some [Fin 7, Fin 9], count = 1, capacity = 2, head = 1,
                      tail = 0, sum_val = Fin 9, sum_sq = Fin 81\<rparr>"
  have i: "ctx_inv (Context ?d)"
    by (simp add: buffer_inv_def SIZEOF_DOUBLE_def PTRDIFF_MAX_def)
  have s: "stats_step (plentiful unset) [SqlNull] (Context ?d) = (Done, Context ?d)"
    by (simp add: eval_defs)
  have l: "live ?d = [Fin 9]" by (simp add: live_def)
  from null_row_ignored [OF i, of "plentiful unset" "[]"] i s l show ?thesis by simp
qed

end
